theory Spec2Isabelle
  imports Complex_Main "HOL-Library.Sublist" "HOL-Library.Word"
begin

section \<open>Numbers, rectangles and recognized words\<close>

text \<open>
  The vision pipeline of \<^verbatim>\<open>services/geminiService.ts\<close>.  A JavaScript \<^verbatim>\<open>number\<close> is
  modelled as an exact rational (\<^typ>\<open>rat\<close>), so the rounding of double-precision
  arithmetic is left out; counters and array indices are \<^typ>\<open>nat\<close> or \<^typ>\<open>int\<close>.  Pixels read through a \<^verbatim>\<open>Uint32Array\<close> are 32-bit words, the entries
  of a \<^verbatim>\<open>Uint8Array\<close> are natural numbers.  A string is a list of characters with
  codes 0 to 255; the recognizer is configured with an ASCII whitelist.
\<close>

record Rect =
  rx :: rat
  ry :: rat
  rw :: rat
  rh :: rat

record DetectedWord =
  word_text :: string
  bbox :: Rect
  confidence :: rat

datatype error =
    IndexSizeError
  | TypeError
  | OCRTimeout

section \<open>Canvases and typed arrays\<close>

text \<open>
  A canvas is its size and its pixels in row-major order, one 32-bit word per pixel as a
  \<^verbatim>\<open>Uint32Array\<close> over the image data shows them.  Reading a typed array outside its
  bounds yields \<^verbatim>\<open>undefined\<close>, which is equal to no number.
\<close>

record Canvas =
  cwidth :: nat
  cheight :: nat
  cpixels :: "32 word list"

definition black :: "32 word" where
  "black = 0xFF000000"

definition white :: "32 word" where
  "white = 0xFFFFFFFF"

definition readIs :: "'a list \<Rightarrow> nat \<Rightarrow> 'a \<Rightarrow> bool" where
  \<comment> \<open>\<^verbatim>\<open>data[i] === v\<close> on a typed array\<close>
  "readIs data i v = (i < length data \<and> data ! i = v)"

definition readAt :: "'a list \<Rightarrow> int \<Rightarrow> 'a option" where
  \<comment> \<open>\<^verbatim>\<open>data[i]\<close> on a typed array, \<open>None\<close> for \<^verbatim>\<open>undefined\<close>\<close>
  "readAt data i = (if 0 \<le> i \<and> i < int (length data) then Some (data ! nat i) else None)"

definition countTrue :: "bool list \<Rightarrow> nat" where
  \<comment> \<open>a counter incremented once for each test that holds\<close>
  "countTrue bs = length (filter (\<lambda>b. b) bs)"

definition pixelAt :: "Canvas \<Rightarrow> int \<Rightarrow> int \<Rightarrow> 32 word" where
  \<comment> \<open>the pixel at a position; transparent black outside the canvas\<close>
  "pixelAt c x y =
     (if 0 \<le> x \<and> x < int (cwidth c) \<and> 0 \<le> y \<and> y < int (cheight c)
      then cpixels c ! (nat y * cwidth c + nat x) else 0)"

definition getImageData :: "Canvas \<Rightarrow> int \<Rightarrow> int \<Rightarrow> int \<Rightarrow> int \<Rightarrow> error + 32 word list" where
  \<comment> \<open>\<^verbatim>\<open>ctx.getImageData(sx, sy, sw, sh)\<close> for whole-number arguments: an empty rectangle
      raises, a negative extent mirrors the rectangle\<close>
  "getImageData c sx sy sw sh =
     (if sw = 0 \<or> sh = 0 then Inl IndexSizeError
      else
        let x0 = (if sw < 0 then sx + sw else sx);
            y0 = (if sh < 0 then sy + sh else sy)
        in Inr (concat (map (\<lambda>j. map (\<lambda>i. pixelAt c (x0 + int i) (y0 + int j))
                                    [0..<nat \<bar>sw\<bar>]) [0..<nat \<bar>sh\<bar>])))"

section \<open>Binarization\<close>

record Image =
  iwidth :: nat
  iheight :: nat
  idata :: "nat list"
    \<comment> \<open>the RGBA bytes of the drawn image, four per pixel, \<open>4 * iwidth * iheight\<close> in all\<close>

definition sampleSteps :: "nat \<Rightarrow> nat list" where
  \<comment> \<open>the values of a loop variable running \<^verbatim>\<open>for (v = 0; v < n; v += 20)\<close>\<close>
  "sampleSteps n = map (\<lambda>k. k * 20) [0..<(n + 19) div 20]"

definition createBinaryCanvas :: "Image \<Rightarrow> error + (Canvas \<times> nat \<times> nat \<times> nat list)" where
  \<comment> \<open>returns the context, the width, the height and \<^verbatim>\<open>binaryData\<close> (0 = ink, 1 = paper)\<close>
  "createBinaryCanvas img =
     (let width = iwidth img; height = iheight img; data = idata img in
      if width = 0 \<or> height = 0 then Inl IndexSizeError
      else
        let samples = concat (map (\<lambda>y. map (\<lambda>x. data ! ((y * width + x) * 4))
                                         (sampleSteps width)) (sampleSteps height));
            sumR = sum_list samples;
            count = length samples;
            avgR = (if count > 0 then of_nat sumR / of_nat count else (128 :: rat));
            threshold = avgR * (85 / 100);
            isDark = (\<lambda>i. of_nat (data ! (i * 4)) < threshold);
            binaryData = map (\<lambda>i. if isDark i then 0 else 1) [0..<width * height];
            buf32 = map (\<lambda>i. if isDark i then black else white) [0..<width * height]
        in Inr (\<lparr>cwidth = width, cheight = height, cpixels = buf32\<rparr>,
                width, height, binaryData))"

section \<open>Morphological cleaning\<close>

definition isProtected :: "Rect list \<Rightarrow> nat \<Rightarrow> nat \<Rightarrow> bool" where
  \<comment> \<open>the flag set by the loop over \<^verbatim>\<open>protectedRects\<close>\<close>
  "isProtected protectedRects x y =
     list_ex (\<lambda>r. of_nat x \<ge> rx r \<and> of_nat x < rx r + rw r
                \<and> of_nat y \<ge> ry r \<and> of_nat y < ry r + rh r) protectedRects"

definition erodeStep ::
  "nat \<Rightarrow> nat \<Rightarrow> Rect list \<Rightarrow> 32 word list \<Rightarrow> nat \<Rightarrow> nat \<Rightarrow> 32 word list \<Rightarrow> 32 word list" where
  \<comment> \<open>the body of the two loops of a pass, at the pixel \<open>(x, y)\<close>\<close>
  "erodeStep iter width protectedRects inputData y x outputData =
     (let i = y * width + x in
      if isProtected protectedRects x y then outputData[i := inputData ! i]
      else if readIs inputData i black then
        (if iter = 0 then
           (let hasWhiteNeighbor =
                  (readIs inputData (i - 1) white \<or> readIs inputData (i + 1) white
                   \<or> readIs inputData (i - width) white \<or> readIs inputData (i + width) white)
            in if \<not> hasWhiteNeighbor then outputData[i := black] else outputData)
         else
           (let neighbors = countTrue
                  [readIs inputData (i - 1) black, readIs inputData (i + 1) black,
                   readIs inputData (i - width) black, readIs inputData (i + width) black,
                   readIs inputData (i - width - 1) black, readIs inputData (i - width + 1) black,
                   readIs inputData (i + width - 1) black, readIs inputData (i + width + 1) black]
            in if neighbors \<ge> 3 then outputData[i := black] else outputData))
      else outputData)"

definition erodePass ::
  "nat \<Rightarrow> nat \<Rightarrow> nat \<Rightarrow> Rect list \<Rightarrow> 32 word list \<Rightarrow> 32 word list" where
  \<comment> \<open>one iteration of \<^verbatim>\<open>erodeCanvas\<close>: the output starts all white, the loops run over
      \<open>1 \<le> y < height - 1\<close> and \<open>1 \<le> x < width - 1\<close>\<close>
  "erodePass iter width height protectedRects inputData =
     fold (\<lambda>y. fold (erodeStep iter width protectedRects inputData y) [1..<width - 1])
       [1..<height - 1] (replicate (width * height) white)"

definition erodeCanvas ::
  "nat \<Rightarrow> nat \<Rightarrow> Rect list \<Rightarrow> nat \<Rightarrow> 32 word list \<Rightarrow> 32 word list" where
  \<comment> \<open>the pixels put back on the canvas, from the pixels read at the start\<close>
  "erodeCanvas width height protectedRects iterations imageData =
     fold (\<lambda>iter current. erodePass iter width height protectedRects current)
       [0..<iterations] imageData"

section \<open>White square detection\<close>

text \<open>
  The constants of one call of \<^verbatim>\<open>findWhiteComponents\<close>, which its closures \<^verbatim>\<open>idx\<close> and
  \<^verbatim>\<open>originalIdx\<close> read: the binary data, the width of the source, the scale and the size
  of the downsampled grid.  The work list of the flood fill holds coordinate pairs; it is
  used as a stack, its head being the pair popped next.
\<close>

record Env =
  env_data :: "nat list"
  env_width :: nat
  env_scale :: rat
  env_sW :: nat
  env_sH :: nat

definition idx :: "Env \<Rightarrow> int \<Rightarrow> int \<Rightarrow> int" where
  \<comment> \<open>the position of a cell of the downsampled grid in \<^verbatim>\<open>visited\<close>\<close>
  "idx env x y = y * int (env_sW env) + x"

definition originalIdx :: "Env \<Rightarrow> int \<Rightarrow> int \<Rightarrow> int" where
  \<comment> \<open>the position in \<^verbatim>\<open>binaryData\<close> of the source pixel a cell stands for\<close>
  "originalIdx env x y =
     (let ox = \<lfloor>of_int x / env_scale env\<rfloor>;
          oy = \<lfloor>of_int y / env_scale env\<rfloor>
      in oy * int (env_width env) + ox)"

definition visitNeighbor ::
  "Env \<Rightarrow> int \<times> int \<Rightarrow> nat list \<times> (int \<times> int) list \<Rightarrow> nat list \<times> (int \<times> int) list" where
  \<comment> \<open>the body of the loop over \<^verbatim>\<open>neighbors\<close>: a paper cell of the grid not yet visited
      is marked and pushed\<close>
  "visitNeighbor env n st =
     (case (n, st) of ((nx, ny), (visited, queue)) \<Rightarrow>
      if nx \<ge> 0 \<and> nx < int (env_sW env) \<and> ny \<ge> 0 \<and> ny < int (env_sH env) then
        let nIdx = idx env nx ny in
        if readAt visited nIdx = Some 0 then
          (let onIdx = originalIdx env nx ny in
           if readAt (env_data env) onIdx = Some 1
           then (visited[nat nIdx := 1], (nx, ny) # queue)
           else (visited, queue))
        else (visited, queue)
      else (visited, queue))"

definition unvisited :: "nat list \<Rightarrow> nat" where
  \<comment> \<open>the number of cells not yet marked, which bounds the work left\<close>
  "unvisited visited = length (filter (\<lambda>v. v = 0) visited)"

function floodFill ::
  "Env \<Rightarrow> nat list \<Rightarrow> (int \<times> int) list \<Rightarrow> int \<times> int \<times> int \<times> int
     \<Rightarrow> nat list \<times> (int \<times> int \<times> int \<times> int)" where
  \<comment> \<open>\<^verbatim>\<open>while (queue.length > 0)\<close>, on \<^verbatim>\<open>visited\<close>, the stack and the bounding box
      \<open>(minX, maxX, minY, maxY)\<close>; the result is reached when the stack is empty\<close>
  "floodFill env visited [] box = (visited, box)"
| "floodFill env visited ((cx, cy) # queue) (minX, maxX, minY, maxY) =
     (let minX = (if cx < minX then cx else minX);
          maxX = (if cx > maxX then cx else maxX);
          minY = (if cy < minY then cy else minY);
          maxY = (if cy > maxY then cy else maxY);
          neighbors = [(cx + 1, cy), (cx - 1, cy), (cx, cy + 1), (cx, cy - 1)];
          st = fold (visitNeighbor env) neighbors (visited, queue)
      in floodFill env (fst st) (snd st) (minX, maxX, minY, maxY))"
  by pat_completeness auto
termination
proof (relation "measure (\<lambda>(env, visited, queue, box). 2 * unvisited visited + length queue)")
  show "wf (measure (\<lambda>(env, visited, queue, box). 2 * unvisited visited + length queue))"
    by simp
next
  fix env :: Env and visited :: "nat list" and cx cy :: int and queue :: "(int \<times> int) list"
    and minX maxX minY maxY xa xb xc xd :: int and xe :: "(int \<times> int) list"
    and xf :: "nat list \<times> (int \<times> int) list"
  assume xf: "xf = fold (visitNeighbor env) xe (visited, queue)"
    and xe: "xe = [(cx + 1, cy), (cx - 1, cy), (cx, cy + 1), (cx, cy - 1)]"
  have upd: "unvisited (v[i := 1]) < unvisited v" if "i < length v" "v ! i = 0"
    for v :: "nat list" and i
    using that
  proof (induction v arbitrary: i)
    case Nil
    then show ?case by simp
  next
    case (Cons a v)
    then show ?case by (cases i) (auto simp: unvisited_def)
  qed
  have one: "2 * unvisited (fst (visitNeighbor env n st)) + length (snd (visitNeighbor env n st))
             \<le> 2 * unvisited (fst st) + length (snd st)" for n st
  proof (cases n; cases st)
    fix nx ny v q assume [simp]: "n = (nx, ny)" "st = (v, q)"
    show ?thesis
    proof (cases "readAt v (idx env nx ny) = Some 0")
      case True
      then have "nat (idx env nx ny) < length v" "v ! nat (idx env nx ny) = 0"
        by (auto simp: readAt_def split: if_splits)
      from upd [OF this] show ?thesis
        by (auto simp: visitNeighbor_def Let_def)
    next
      case False
      then show ?thesis by (simp add: visitNeighbor_def Let_def)
    qed
  qed
  have many: "2 * unvisited (fst (fold (visitNeighbor env) ns st))
                + length (snd (fold (visitNeighbor env) ns st))
              \<le> 2 * unvisited (fst st) + length (snd st)" for ns st
  proof (induction ns arbitrary: st)
    case Nil
    show ?case by simp
  next
    case (Cons n ns)
    show ?case using Cons [of "visitNeighbor env n st"] one [of n st] by simp
  qed
  from many [of xe "(visited, queue)"]
  show "((env, fst xf, snd xf, xa, xb, xc, xd), env, visited, (cx, cy) # queue, minX, maxX, minY, maxY)
        \<in> measure (\<lambda>(env, visited, queue, box). 2 * unvisited visited + length queue)"
    by (simp add: xf)
qed

definition isVisited :: "Env \<Rightarrow> nat list \<Rightarrow> int \<Rightarrow> int \<Rightarrow> bool" where
  \<comment> \<open>the truth value of \<^verbatim>\<open>visited[idx(x, y)]\<close>\<close>
  "isVisited env visited x y =
     (case readAt visited (idx env x y) of Some v \<Rightarrow> v \<noteq> 0 | None \<Rightarrow> False)"

definition scanCell :: "Env \<Rightarrow> nat \<Rightarrow> nat \<Rightarrow> nat list \<times> Rect list \<Rightarrow> nat list \<times> Rect list" where
  \<comment> \<open>the body of the two scan loops at the cell \<open>(x, y)\<close>, on \<^verbatim>\<open>visited\<close> and
      \<^verbatim>\<open>components\<close>: an ink cell is marked, a paper cell starts a flood fill whose
      region is kept when it passes the three filters\<close>
  "scanCell env y x st =
     (case st of (visited, components) \<Rightarrow>
      if isVisited env visited (int x) (int y) then (visited, components)
      else
        let oIdx = originalIdx env (int x) (int y) in
        if readAt (env_data env) oIdx = Some 0
        then (visited[nat (idx env (int x) (int y)) := 1], components)
        else
          (case floodFill env (visited[nat (idx env (int x) (int y)) := 1]) [(int x, int y)]
                  (int x, int x, int y, int y) of
             (visited, (minX, maxX, minY, maxY)) \<Rightarrow>
               let w = maxX - minX + 1;
                   h = maxY - minY + 1;
                   ratio = (of_int w :: rat) / of_int h;
                   isSquareish = (ratio > 6 / 10 \<and> ratio < 25 / 10);
                   isBigEnough = (of_int w > of_nat (env_sW env) * (3 / 100 :: rat)
                                  \<and> of_int h > of_nat (env_sH env) * (3 / 100 :: rat));
                   isNotTooBig = (of_int w < of_nat (env_sW env) * (25 / 100 :: rat))
               in if isSquareish \<and> isBigEnough \<and> isNotTooBig
                  then (visited, components @
                          [\<lparr>rx = of_int \<lfloor>of_int minX / env_scale env\<rfloor>,
                            ry = of_int \<lfloor>of_int minY / env_scale env\<rfloor>,
                            rw = of_int \<lfloor>of_int w / env_scale env\<rfloor>,
                            rh = of_int \<lfloor>of_int h / env_scale env\<rfloor>\<rparr>])
                  else (visited, components)))"

definition findWhiteComponents :: "nat list \<Rightarrow> nat \<Rightarrow> nat \<Rightarrow> Rect list" where
  \<comment> \<open>called on the width and height of a canvas that has pixels, so \<open>width > 0\<close>\<close>
  "findWhiteComponents binaryData width height =
     (let targetWidth = 300;
          scale = targetWidth / of_nat width;
          sW = nat \<lfloor>of_nat width * scale\<rfloor>;
          sH = nat \<lfloor>of_nat height * scale\<rfloor>;
          env = \<lparr>env_data = binaryData, env_width = width, env_scale = scale,
                 env_sW = sW, env_sH = sH\<rparr>;
          visited = replicate (sW * sH) 0
      in snd (fold (\<lambda>y. fold (scanCell env y) [0..<sW]) [0..<sH] (visited, [])))"

section \<open>Grid reconstruction\<close>

record Row =
  row_y :: rat
  row_h :: rat
  cells :: "Rect list"

record GridRow =
  grid_cells :: "Rect list"
  rowY :: rat
  rowH :: rat

fun clusterColumns :: "rat \<Rightarrow> Rect list \<Rightarrow> rat list \<Rightarrow> rat \<Rightarrow> nat \<Rightarrow> rat list" where
  \<comment> \<open>the clustering loop over \<^verbatim>\<open>allCells[1..]\<close>, with the final push\<close>
  "clusterColumns avgW [] columnsX currentClusterX clusterCount
     = columnsX @ [currentClusterX]"
| "clusterColumns avgW (c # rest) columnsX currentClusterX clusterCount =
     (if rx c - currentClusterX < avgW * (6 / 10)
      then clusterColumns avgW rest columnsX
             ((currentClusterX * of_nat clusterCount + rx c) / of_nat (clusterCount + 1))
             (clusterCount + 1)
      else clusterColumns avgW rest (columnsX @ [currentClusterX]) (rx c) 1)"

function extendColumns :: "rat \<Rightarrow> rat list \<Rightarrow> rat list" where
  \<comment> \<open>\<^verbatim>\<open>while (columnsX.length < 6 && columnsX.length > 0)\<close>\<close>
  "extendColumns avgW columnsX =
     (if length columnsX < 6 \<and> length columnsX > 0
      then extendColumns avgW (columnsX @ [last columnsX + avgW * (105 / 100)])
      else columnsX)"
  by pat_completeness auto
termination
  by (relation "measure (\<lambda>(avgW, columnsX). 6 - length columnsX)") auto

declare extendColumns.simps [simp del]

definition gridCell :: "rat \<Rightarrow> rat \<Rightarrow> rat list \<Rightarrow> Row \<Rightarrow> nat \<Rightarrow> Rect" where
  \<comment> \<open>the cell pushed for column \<open>i\<close> of a row; \<^verbatim>\<open>columnsX[i] || (i * avgW * 1.1)\<close> takes
      the second value when the first is missing or zero\<close>
  "gridCell avgW avgH columnsX row i =
     (let colX = (if i < length columnsX \<and> columnsX ! i \<noteq> 0 then columnsX ! i
                  else of_nat i * avgW * (11 / 10))
      in case find (\<lambda>c. \<bar>rx c - colX\<bar> < avgW * (5 / 10)) (cells row) of
           Some existing \<Rightarrow> existing
         | None \<Rightarrow> \<lparr>rx = of_int \<lfloor>colX\<rfloor>, ry = of_int \<lfloor>row_y row\<rfloor>,
                     rw = of_int \<lfloor>avgW\<rfloor>, rh = of_int \<lfloor>avgH\<rfloor>\<rparr>)"

definition interpolateGrid :: "Row list \<Rightarrow> GridRow list" where
  "interpolateGrid rs =
     (let allCells = concat (map cells rs);
          totalW = sum_list (map rw allCells);
          totalH = sum_list (map rh allCells);
          count = length allCells;
          avgW = (if count > 0 then totalW / of_nat count else 50);
          avgH = (if count > 0 then totalH / of_nat count else 50);
          allCells = sort_key rx allCells;
          columnsX = (case allCells of
                        [] \<Rightarrow> []
                      | c # rest \<Rightarrow> clusterColumns avgW rest [] (rx c) 1);
          columnsX = extendColumns avgW columnsX;
          columnsX = sort columnsX
      in map (\<lambda>row. \<lparr>grid_cells = map (gridCell avgW avgH columnsX row) [0..<6],
                       rowY = row_y row, rowH = row_h row\<rparr>) rs)"

definition asRows :: "GridRow list \<Rightarrow> Row list" where
  \<comment> \<open>interpolated rows taken as input rows again\<close>
  "asRows gs = map (\<lambda>g. \<lparr>row_y = rowY g, row_h = rowH g, cells = grid_cells g\<rparr>) gs"

section \<open>Content verification\<close>

definition isDense :: "32 word list \<Rightarrow> nat \<Rightarrow> nat \<Rightarrow> bool" where
  \<comment> \<open>the pixel \<open>i\<close> is black and at least 6 of the 8 pixels around it are\<close>
  "isDense data width i =
     (readIs data i black \<and>
      (let neighborCount = countTrue
             [readIs data (i - 1) black, readIs data (i + 1) black,
              readIs data (i - width) black, readIs data (i + width) black,
              readIs data (i - width - 1) black, readIs data (i - width + 1) black,
              readIs data (i + width - 1) black, readIs data (i + width + 1) black]
       in neighborCount \<ge> 6))"

definition hasInk :: "Canvas \<Rightarrow> int \<Rightarrow> int \<Rightarrow> int \<Rightarrow> int \<Rightarrow> error + bool" where
  \<comment> \<open>\<^verbatim>\<open>hasInk(ctx, {x, y, w, h})\<close>; its caller passes whole numbers\<close>
  "hasInk ctx x y w h =
     (case getImageData ctx x y w h of
        Inl e \<Rightarrow> Inl e
      | Inr data \<Rightarrow>
          let totalPixels = w * h;
              width = nat w;
              denseBlackPixels =
                length (filter (\<lambda>(yy, xx). isDense data width (yy * width + xx))
                          (List.product [1..<nat (h - 1)] [1..<nat (w - 1)]))
          in Inr (of_nat denseBlackPixels / of_int totalPixels > (1 / 100 :: rat)))"

section \<open>The composite sheet\<close>

datatype CellType = Number | Id

record MappedCell =
  ticketIndex :: nat
  rowIndex :: nat
  colIndex :: nat
  spriteRect :: Rect
  originalRect :: Rect
  cellType :: CellType

record Ticket =
  rows :: "Row list"

definition cellSize :: nat where
  "cellSize = 160"

definition padding :: nat where
  "padding = 400"

definition ticketHeight :: nat where
  "ticketHeight = 3 * (cellSize + padding) + padding"

definition numberSprite :: "nat \<Rightarrow> nat \<Rightarrow> nat \<Rightarrow> Rect" where
  \<comment> \<open>the sprite rectangle of cell \<open>(r, c)\<close> of ticket \<open>tIdx\<close>\<close>
  "numberSprite tIdx r c =
     (let startY = tIdx * ticketHeight + padding;
          rowY = startY + r * (cellSize + padding)
      in \<lparr>rx = of_nat (padding + c * (cellSize + padding)), ry = of_nat rowY,
          rw = of_nat cellSize, rh = of_nat cellSize\<rparr>)"

definition numberCell :: "Canvas \<Rightarrow> nat \<Rightarrow> nat \<Rightarrow> nat \<Rightarrow> Rect \<Rightarrow> error + MappedCell list" where
  \<comment> \<open>the body of the loop over the columns: the mappings pushed, none or one.  An
      exception of \<^verbatim>\<open>hasInk\<close> is not caught; \<^verbatim>\<open>drawImage\<close> from a canvas that has pixels
      does not raise, so the push after it is always reached.\<close>
  "numberCell binaryCtx tIdx r c cell =
     (let spriteRect = numberSprite tIdx r c;
          cropMarginX = rw cell * (32 / 100);
          cropMarginY = rh cell * (32 / 100);
          srcX = \<lfloor>rx cell + cropMarginX\<rfloor>;
          srcY = \<lfloor>ry cell + cropMarginY\<rfloor>;
          srcW = \<lfloor>rw cell - cropMarginX * 2\<rfloor>;
          srcH = \<lfloor>rh cell - cropMarginY * 2\<rfloor>
      in case hasInk binaryCtx srcX srcY srcW srcH of
           Inl e \<Rightarrow> Inl e
         | Inr True \<Rightarrow>
             Inr [\<lparr>ticketIndex = tIdx, rowIndex = r, colIndex = c, spriteRect = spriteRect,
                   originalRect = cell, cellType = Number\<rparr>]
         | Inr False \<Rightarrow> Inr [])"

definition idCell :: "Canvas \<Rightarrow> nat \<Rightarrow> Rect \<Rightarrow> MappedCell list" where
  \<comment> \<open>the identifier field to the right of the last cell of the last row, which always
      exists: the mappings pushed, none or one\<close>
  "idCell binaryCtx tIdx lastCell =
     (let startY = tIdx * ticketHeight + padding;
          searchX = rx lastCell + rw lastCell + rw lastCell * (30 / 100);
          searchY = ry lastCell;
          searchW = rw lastCell * (18 / 10);
          searchH = rh lastCell;
          safeX = min searchX (of_nat (cwidth binaryCtx) - 1);
          safeY = min searchY (of_nat (cheight binaryCtx) - 1);
          safeW = min searchW (of_nat (cwidth binaryCtx) - safeX);
          safeH = min searchH (of_nat (cheight binaryCtx) - safeY);
          ratio = (if safeH > 0 then safeW / safeH else 3);
          targetIDWidth = \<lfloor>of_nat cellSize * ratio\<rfloor>;
          spriteRect = \<lparr>rx = of_nat (padding + 6 * (cellSize + padding)),
                         ry = of_nat (startY + 2 * (cellSize + padding)),
                         rw = of_int targetIDWidth, rh = of_nat cellSize\<rparr>
      in if safeW > 10 \<and> safeH > 10
         then [\<lparr>ticketIndex = tIdx, rowIndex = 2, colIndex = 6, spriteRect = spriteRect,
                 originalRect = \<lparr>rx = safeX, ry = safeY, rw = safeW, rh = safeH\<rparr>,
                 cellType = Id\<rparr>]
         else [])"

fun collect :: "(error + 'a list) list \<Rightarrow> error + 'a list" where
  \<comment> \<open>runs the steps in order; the first exception ends the run\<close>
  "collect [] = Inr []"
| "collect (step # steps) =
     (case step of
        Inl e \<Rightarrow> Inl e
      | Inr xs \<Rightarrow> (case collect steps of Inl e \<Rightarrow> Inl e | Inr ys \<Rightarrow> Inr (xs @ ys)))"

definition ticketCells :: "Canvas \<Rightarrow> nat \<Rightarrow> Ticket \<Rightarrow> error + MappedCell list" where
  \<comment> \<open>the body of the second \<^verbatim>\<open>tickets.forEach\<close>: the mappings pushed for one ticket\<close>
  "ticketCells binaryCtx tIdx ticket =
     (let interpolatedRows = interpolateGrid (rows ticket) in
      if length interpolatedRows < 3 then Inl TypeError
      else
        collect
          (map (\<lambda>(r, c). numberCell binaryCtx tIdx r c (grid_cells (interpolatedRows ! r) ! c))
               (List.product [0..<3] [0..<6])
           @ [Inr (idCell binaryCtx tIdx (grid_cells (interpolatedRows ! 2) ! 5))]))"

definition generateCompositeCanvas :: "Canvas \<Rightarrow> Ticket list \<Rightarrow> error + MappedCell list" where
  \<comment> \<open>the \<^verbatim>\<open>map\<close> of the result.  The first pass over the tickets reads the third
      interpolated row of each and raises when there is none.  The pixels of the sheet,
      and their cleaning by \<^verbatim>\<open>erodeCanvas\<close>, do not enter the map.\<close>
  "generateCompositeCanvas binaryCtx tickets =
     (if list_ex (\<lambda>ticket. length (interpolateGrid (rows ticket)) < 3) tickets
      then Inl TypeError
      else collect (map (\<lambda>(tIdx, ticket). ticketCells binaryCtx tIdx ticket)
                        (zip [0..<length tickets] tickets)))"

section \<open>Rows and tickets\<close>

definition rowMatches :: "Rect \<Rightarrow> Row \<Rightarrow> bool" where
  \<comment> \<open>the test of \<^verbatim>\<open>rows.find\<close>\<close>
  "rowMatches component r =
     (let centerY = ry component + rh component / 2;
          rowCenterY = row_y r + row_h r / 2
      in \<bar>centerY - rowCenterY\<bar> < row_h r * (5 / 10))"

fun pushToRow :: "Rect \<Rightarrow> Row list \<Rightarrow> Row list" where
  \<comment> \<open>the component joins the first row that matches, or starts a new last row\<close>
  "pushToRow component [] = [\<lparr>row_y = ry component, row_h = rh component, cells = [component]\<rparr>]"
| "pushToRow component (r # rs) =
     (if rowMatches component r then r\<lparr>cells := cells r @ [component]\<rparr> # rs
      else r # pushToRow component rs)"

definition validRows :: "Rect list \<Rightarrow> Row list" where
  \<comment> \<open>from the sort of the components to the sort of the rows\<close>
  "validRows rawComponents =
     (let rawComponents = sort_key ry rawComponents;
          rs = foldl (\<lambda>rs component. pushToRow component rs) [] rawComponents;
          rs = map (\<lambda>r. r\<lparr>cells := sort_key rx (cells r)\<rparr>) rs;
          valid = filter (\<lambda>r. length (cells r) \<ge> 1) rs
      in sort_key row_y valid)"

definition slice :: "nat \<Rightarrow> nat \<Rightarrow> 'a list \<Rightarrow> 'a list" where
  \<comment> \<open>\<^verbatim>\<open>xs.slice(a, b)\<close> for \<open>0 \<le> a \<le> b\<close>\<close>
  "slice a b xs = take (b - a) (drop a xs)"

definition flushRows :: "Row list \<Rightarrow> Ticket list" where
  \<comment> \<open>the tickets pushed when the accumulated rows are flushed\<close>
  "flushRows currentTicketRows =
     (let chunks = length currentTicketRows div 3
      in map (\<lambda>k. \<lparr>rows = slice (k * 3) ((k + 1) * 3) currentTicketRows\<rparr>) [0..<chunks])"

fun chunkRows :: "Row list \<Rightarrow> Ticket list \<Rightarrow> Row list \<Rightarrow> Ticket list" where
  \<comment> \<open>the loop over \<^verbatim>\<open>validRows\<close> with its state, and the final flush\<close>
  "chunkRows [] ticketsRaw currentTicketRows = ticketsRaw @ flushRows currentTicketRows"
| "chunkRows (row # rest) ticketsRaw currentTicketRows =
     (if currentTicketRows = [] then chunkRows rest ticketsRaw [row]
      else
        let prev = last currentTicketRows;
            dist = row_y row - (row_y prev + row_h prev)
        in if dist < row_h row * (2 / 10)
           then chunkRows rest ticketsRaw (currentTicketRows @ [row])
           else chunkRows rest (ticketsRaw @ flushRows currentTicketRows) [row])"

definition ticketsFromComponents :: "Rect list \<Rightarrow> Ticket list" where
  \<comment> \<open>\<^verbatim>\<open>detectTicketsInImage\<close> after the call of \<^verbatim>\<open>findWhiteComponents\<close>\<close>
  "ticketsFromComponents rawComponents = chunkRows (validRows rawComponents) [] []"

definition detectTicketsInImage :: "nat \<Rightarrow> nat \<Rightarrow> nat list \<Rightarrow> Ticket list" where
  "detectTicketsInImage width height binaryData =
     ticketsFromComponents (findWhiteComponents binaryData width height)"

section \<open>Fast validation\<close>

record ValidationResult =
  isValid :: bool
  message :: string
  ticketCount :: nat

function showNat :: "nat \<Rightarrow> string" where
  \<comment> \<open>a number in a template string\<close>
  "showNat n =
     (if n < 10 then [''0123456789'' ! n]
      else showNat (n div 10) @ [''0123456789'' ! (n mod 10)])"
  by pat_completeness auto
termination
  by (relation "measure (\<lambda>n. n)") auto

declare showNat.simps [simp del]

definition noTicketMessage :: string where
  \<comment> \<open>the a-umlaut is the character 0xE4\<close>
  "noTicketMessage =
     ''Kein Schein erkannt. Bitte n'' @ [CHR 0xE4] @ ''her rangehen oder Licht verbessern.''"

definition validateTicketImage :: "Image \<Rightarrow> error + ValidationResult" where
  \<comment> \<open>the overlay drawn on the canvas is left out\<close>
  "validateTicketImage img =
     (case createBinaryCanvas img of
        Inl e \<Rightarrow> Inl e
      | Inr (ctx, width, height, binaryData) \<Rightarrow>
          let detectedTickets = detectTicketsInImage width height binaryData
          in if length detectedTickets > 0
             then Inr \<lparr>isValid = True,
                       message = showNat (length detectedTickets) @ '' Schein(e) erkannt.'',
                       ticketCount = length detectedTickets\<rparr>
             else Inr \<lparr>isValid = False, message = noTicketMessage,
                       ticketCount = length detectedTickets\<rparr>)"

section \<open>Character classes and string helpers\<close>

definition isDigit :: "char \<Rightarrow> bool" where
  \<comment> \<open>the class \<^verbatim>\<open>[0-9]\<close>\<close>
  "isDigit c = (c \<in> set ''0123456789'')"

definition lowerLetters :: string where
  "lowerLetters = ''abcdefghijklmnopqrstuvwxyz''"

definition upperLetters :: string where
  "upperLetters = ''ABCDEFGHIJKLMNOPQRSTUVWXYZ''"

definition isAlpha :: "char \<Rightarrow> bool" where
  \<comment> \<open>the class \<^verbatim>\<open>[a-zA-Z]\<close>\<close>
  "isAlpha c = (c \<in> set (lowerLetters @ upperLetters))"

definition isNumberLikeAlpha :: "char \<Rightarrow> bool" where
  \<comment> \<open>the class \<^verbatim>\<open>[IlOSBZAGT]\<close> under the flag \<^verbatim>\<open>i\<close>\<close>
  "isNumberLikeAlpha c = (c \<in> set ''IlOSBZAGTiLosbzagt'')"

definition isSpace :: "char \<Rightarrow> bool" where
  \<comment> \<open>the class \<^verbatim>\<open>\s\<close>, and the characters removed by \<^verbatim>\<open>trim\<close>, below code 256\<close>
  "isSpace c = (c \<in> set [CHR '' '', CHR 0x09, CHR 0x0A, CHR 0x0B, CHR 0x0C, CHR 0x0D, CHR 0xA0])"

definition trim :: "string \<Rightarrow> string" where
  \<comment> \<open>\<^verbatim>\<open>s.trim()\<close>\<close>
  "trim s = rev (dropWhile isSpace (rev (dropWhile isSpace s)))"

definition upperChar :: "char \<Rightarrow> string" where
  \<comment> \<open>\<^verbatim>\<open>toUpperCase\<close> on one character: ASCII letters, and the sharp s (code 0xDF), which
      becomes two letters; the other characters above 127 are never digits or ASCII
      letters, before or after, and are left as they are\<close>
  "upperChar c =
     (if c = CHR 0xDF then ''SS''
      else case map_of (zip lowerLetters upperLetters) c of
             Some u \<Rightarrow> [u]
           | None \<Rightarrow> [c])"

definition toUpperCase :: "string \<Rightarrow> string" where
  "toUpperCase s = concat (map upperChar s)"

definition replaceAll :: "char \<Rightarrow> char \<Rightarrow> string \<Rightarrow> string" where
  \<comment> \<open>\<^verbatim>\<open>s.replace(/a/g, 'b')\<close> for a one-character pattern\<close>
  "replaceAll a b s = map (\<lambda>c. if c = a then b else c) s"

definition digitValue :: "char \<Rightarrow> int" where
  \<comment> \<open>the value of a decimal digit\<close>
  "digitValue c = int (length (takeWhile (\<lambda>d. d \<noteq> c) ''0123456789''))"

definition parseInt :: "string \<Rightarrow> int option" where
  \<comment> \<open>\<^verbatim>\<open>parseInt\<close> on a string without leading blanks, sign or radix prefix: the leading
      decimal digits, or \<^verbatim>\<open>NaN\<close> (here \<open>None\<close>) when there is none\<close>
  "parseInt s =
     (let ds = takeWhile isDigit s
      in if ds = [] then None
         else Some (foldl (\<lambda>acc d. 10 * acc + digitValue d) 0 ds))"

section \<open>Reading the number of a cell\<close>

definition countMatches :: "(char \<Rightarrow> bool) \<Rightarrow> string \<Rightarrow> int" where
  \<comment> \<open>\<^verbatim>\<open>(s.match(/[class]/g) || []).length\<close>\<close>
  "countMatches p s = int (length (filter p s))"

definition substituteConfusables :: "string \<Rightarrow> string" where
  \<comment> \<open>the chain of \<^verbatim>\<open>replace\<close> calls, in the order of the source\<close>
  "substituteConfusables txt =
     (replaceAll (CHR ''T'') (CHR ''7'')
       (replaceAll (CHR ''G'') (CHR ''6'')
        (replaceAll (CHR ''A'') (CHR ''4'')
         (replaceAll (CHR ''Z'') (CHR ''7'')
          (replaceAll (CHR ''S'') (CHR ''5'')
           (replaceAll (CHR ''B'') (CHR ''8'')
            (replaceAll (CHR ''O'') (CHR ''0'')
             (replaceAll (CHR ''I'') (CHR ''1'')
              (replaceAll (CHR ''l'') (CHR ''1'') txt)))))))))"

definition normalizeNumber :: "string \<Rightarrow> int option" where
  \<comment> \<open>from \<^verbatim>\<open>let txt = rawText.toUpperCase()\<close> to the range test; \<open>None\<close> when the cell
      is not written\<close>
  "normalizeNumber rawText =
     (let txt = toUpperCase rawText;
          txt = substituteConfusables txt;
          clean = filter isDigit txt
      in case parseInt clean of
           None \<Rightarrow> None
         | Some num \<Rightarrow> if num > 0 \<and> num < 100 then Some num else None)"

definition readNumber :: "DetectedWord \<Rightarrow> rat \<Rightarrow> int option" where
  \<comment> \<open>the body run for the best candidate of a number sprite of height \<open>cellH\<close> (160 for
      every number sprite): the value written into the grid, or \<open>None\<close> when the cell is
      left as it is\<close>
  "readNumber best cellH =
     (let rawText = trim (word_text best);
          textH = rh (bbox best)
      in if textH / cellH < 33 / 100 then None
         else
           let alphaCount = countMatches isAlpha rawText;
               digitCount = countMatches isDigit rawText;
               numberLikeAlpha = countMatches isNumberLikeAlpha rawText;
               badAlpha = alphaCount - numberLikeAlpha
           in if badAlpha > digitCount \<and> length rawText > 1 then None
              else normalizeNumber rawText)"

definition wordAt :: "string \<Rightarrow> rat \<Rightarrow> rat \<Rightarrow> rat \<Rightarrow> rat \<Rightarrow> rat \<Rightarrow> DetectedWord" where
  \<comment> \<open>a recognized word with the given text, bounding box and confidence\<close>
  "wordAt s x y w h c =
     \<lparr>word_text = s, bbox = \<lparr>rx = x, ry = y, rw = w, rh = h\<rparr>, confidence = c\<rparr>"

section \<open>Reconstructing the ticket identifier\<close>

definition isIdLetter :: "char \<Rightarrow> bool" where
  \<comment> \<open>the class \<^verbatim>\<open>[A-Za-z]\<close> extended by the German umlauts and the sharp s\<close>
  "isIdLetter c =
     (c \<in> set (upperLetters @ lowerLetters
                @ [CHR 0xE4, CHR 0xF6, CHR 0xFC, CHR 0xC4, CHR 0xD6, CHR 0xDC, CHR 0xDF]))"

function stripLetterRuns :: "string \<Rightarrow> string" where
  \<comment> \<open>\<^verbatim>\<open>replace(/[letters]{2,}/g, '')\<close>: every maximal run of two or more letters goes\<close>
  "stripLetterRuns [] = []"
| "stripLetterRuns (c # cs) =
     (if isIdLetter c then
        (let run = c # takeWhile isIdLetter cs
         in (if length run \<ge> 2 then [] else run) @ stripLetterRuns (dropWhile isIdLetter cs))
      else c # stripLetterRuns cs)"
  by pat_completeness auto
termination
  by (relation "measure length") (auto simp: less_Suc_eq_le length_dropWhile_le)

definition normalizeSlashes :: "string \<Rightarrow> string" where
  \<comment> \<open>\<^verbatim>\<open>replace(/[|\\I:.]/g, '/')\<close>; 0x5C is the backslash\<close>
  "normalizeSlashes s =
     map (\<lambda>c. if c \<in> set [CHR ''|'', CHR 0x5C, CHR ''I'', CHR '':'', CHR ''.'']
                then CHR ''/'' else c) s"

definition matchRest :: "string \<Rightarrow> string option" where
  \<comment> \<open>\<^verbatim>\<open>\s*\/\s*(\d{1,5})\<close> at the start of a string: the second group\<close>
  "matchRest s =
     (case dropWhile isSpace s of
        [] \<Rightarrow> None
      | c # r \<Rightarrow>
          if c = CHR ''/'' then
            (let right = take 5 (takeWhile isDigit (dropWhile isSpace r))
             in if right = [] then None else Some right)
          else None)"

definition matchWith :: "string \<Rightarrow> nat \<Rightarrow> (string \<times> string) option" where
  \<comment> \<open>the pattern at the start of a string, the first group taking \<open>k\<close> digits\<close>
  "matchWith s k =
     (if k \<le> length (takeWhile isDigit s)
      then (case matchRest (drop k s) of
              None \<Rightarrow> None
            | Some right \<Rightarrow> Some (take k s, right))
      else None)"

definition matchHere :: "string \<Rightarrow> (string \<times> string) option" where
  \<comment> \<open>the first group is greedy and gives digits back one at a time\<close>
  "matchHere s =
     (case List.find (\<lambda>k. matchWith s k \<noteq> None) [5, 4, 3, 2, 1] of
        None \<Rightarrow> None
      | Some k \<Rightarrow> matchWith s k)"

fun slashMatch :: "string \<Rightarrow> (string \<times> string) option" where
  \<comment> \<open>\<^verbatim>\<open>s.match(/(\d{1,5})\s*\/\s*(\d{1,5})/)\<close>: the leftmost match, as its two groups\<close>
  "slashMatch [] = None"
| "slashMatch (c # cs) =
     (case matchHere (c # cs) of
        Some m \<Rightarrow> Some m
      | None \<Rightarrow> slashMatch cs)"

function splitSpaces :: "string \<Rightarrow> string list" where
  \<comment> \<open>\<^verbatim>\<open>s.split(/\s+/).filter(p => p.length > 0)\<close>: the maximal runs of non-blank
      characters\<close>
  "splitSpaces [] = []"
| "splitSpaces (c # cs) =
     (if isSpace c then splitSpaces cs
      else (c # takeWhile (\<lambda>d. \<not> isSpace d) cs)
             # splitSpaces (dropWhile (\<lambda>d. \<not> isSpace d) cs))"
  by pat_completeness auto
termination
  by (relation "measure length") (auto simp: less_Suc_eq_le length_dropWhile_le)

fun joinSpace :: "string list \<Rightarrow> string" where
  \<comment> \<open>\<^verbatim>\<open>ws.join(' ')\<close>\<close>
  "joinSpace [] = []"
| "joinSpace [s] = s"
| "joinSpace (s # t # ts) = s @ '' '' @ joinSpace (t # ts)"

definition reconstructId :: "string \<Rightarrow> string option" where
  \<comment> \<open>the identifier read from the joined text, \<open>None\<close> when the placeholder stays\<close>
  "reconstructId fullText =
     (let processed = stripLetterRuns fullText;
          processed = normalizeSlashes processed
      in case slashMatch processed of
           Some (left, right) \<Rightarrow> Some (left @ ''/'' @ right)
         | None \<Rightarrow>
             let looseText = trim (map (\<lambda>c. if isDigit c \<or> isSpace c then c else CHR '' '')
                                      processed);
                 parts = splitSpaces looseText
             in if length parts \<ge> 2
                then (let p1 = parts ! (length parts - 2);
                          p2 = parts ! (length parts - 1)
                      in Some (p1 @ ''/'' @ p2))
                else None)"

section \<open>The main analysis\<close>

record RawWord =
  raw_text :: string
  x0 :: rat
  y0 :: rat
  x1 :: rat
  y1 :: rat
  raw_confidence :: rat

record ScanResult =
  ticketId :: string
  grid :: "int list list"

definition toDetectedWord :: "RawWord \<Rightarrow> DetectedWord" where
  \<comment> \<open>the function mapped over \<^verbatim>\<open>ocrResult.data.words\<close>\<close>
  "toDetectedWord w =
     \<lparr>word_text = trim (raw_text w),
      bbox = \<lparr>rx = x0 w, ry = y0 w, rw = x1 w - x0 w, rh = y1 w - y0 w\<rparr>,
      confidence = raw_confidence w\<rparr>"

definition centerInside :: "Rect \<Rightarrow> DetectedWord \<Rightarrow> bool" where
  \<comment> \<open>the filter on the words: the center of the box lies strictly inside the sprite\<close>
  "centerInside sprite w =
     (let centerX = rx (bbox w) + rw (bbox w) / 2;
          centerY = ry (bbox w) + rh (bbox w) / 2
      in centerX > rx sprite \<and> centerX < rx sprite + rw sprite
         \<and> centerY > ry sprite \<and> centerY < ry sprite + rh sprite)"

definition setCell :: "int list list \<Rightarrow> nat \<Rightarrow> nat \<Rightarrow> int \<Rightarrow> error + int list list" where
  \<comment> \<open>\<^verbatim>\<open>grid[r][c] = num\<close>: a missing row raises; a write past the end of a row lengthens
      the row (the holes in between are shown as 0)\<close>
  "setCell g r c num =
     (if r < length g then
        (let row = g ! r
         in if c < length row then Inr (g[r := row[c := num]])
            else Inr (g[r := row @ replicate (c - length row) 0 @ [num]]))
      else Inl TypeError)"

definition processNumber :: "DetectedWord list \<Rightarrow> MappedCell \<Rightarrow> int list list \<Rightarrow> error + int list list" where
  \<comment> \<open>the body of \<^verbatim>\<open>numberItems.forEach\<close>, on the grid of the ticket\<close>
  "processNumber ocrWords item g =
     (let candidates = filter (centerInside (spriteRect item)) ocrWords in
      if length candidates > 0 then
        (let candidates = sort_key (\<lambda>w. - confidence w) candidates;
             best = hd candidates
         in case readNumber best (rh (spriteRect item)) of
              None \<Rightarrow> Inr g
            | Some num \<Rightarrow> setCell g (rowIndex item) (colIndex item) num)
      else Inr g)"

fun processNumbers :: "DetectedWord list \<Rightarrow> MappedCell list \<Rightarrow> int list list \<Rightarrow> error + int list list" where
  \<comment> \<open>\<^verbatim>\<open>numberItems.forEach\<close>; an exception ends it\<close>
  "processNumbers ocrWords [] g = Inr g"
| "processNumbers ocrWords (item # items) g =
     (case processNumber ocrWords item g of
        Inl e \<Rightarrow> Inl e
      | Inr g' \<Rightarrow> processNumbers ocrWords items g')"

definition processId :: "DetectedWord list \<Rightarrow> MappedCell list \<Rightarrow> nat \<Rightarrow> string \<Rightarrow> string" where
  \<comment> \<open>the identifier of ticket \<open>tIdx\<close>, from the one it has\<close>
  "processId ocrWords cellMap tIdx current =
     (case List.find (\<lambda>m. ticketIndex m = tIdx \<and> cellType m = Id) cellMap of
        None \<Rightarrow> current
      | Some idMapItem \<Rightarrow>
          let idWords = filter (centerInside (spriteRect idMapItem)) ocrWords in
          if length idWords > 0 then
            (case reconstructId (joinSpace (map word_text idWords)) of
               None \<Rightarrow> current
             | Some newId \<Rightarrow> newId)
          else current)"

definition processTicket ::
  "DetectedWord list \<Rightarrow> MappedCell list \<Rightarrow> (nat \<Rightarrow> nat) \<Rightarrow> nat \<Rightarrow> error + ScanResult" where
  \<comment> \<open>the entry of \<^verbatim>\<open>finalResults\<close> for ticket \<open>tIdx\<close>; \<open>random tIdx\<close> is the number drawn
      for its placeholder\<close>
  "processTicket ocrWords cellMap random tIdx =
     (let initial = \<lparr>ticketId = ''ID-'' @ showNat (random tIdx),
                     grid = replicate 3 (replicate 6 0)\<rparr>;
          numberItems = filter (\<lambda>m. ticketIndex m = tIdx \<and> cellType m = Number) cellMap
      in case processNumbers ocrWords numberItems (grid initial) of
           Inl e \<Rightarrow> Inl e
         | Inr g \<Rightarrow>
             Inr \<lparr>ticketId = processId ocrWords cellMap tIdx (ticketId initial), grid = g\<rparr>)"

fun sequence :: "(error + 'a) list \<Rightarrow> error + 'a list" where
  \<comment> \<open>the results of the steps in order, or the first exception\<close>
  "sequence [] = Inr []"
| "sequence (step # steps) =
     (case step of
        Inl e \<Rightarrow> Inl e
      | Inr x \<Rightarrow> (case sequence steps of Inl e \<Rightarrow> Inl e | Inr xs \<Rightarrow> Inr (x # xs)))"

definition analyzeTicketImage ::
  "Image \<Rightarrow> RawWord list option \<Rightarrow> (nat \<Rightarrow> nat) \<Rightarrow> error + ScanResult list" where
  \<comment> \<open>the \<^verbatim>\<open>results\<close> of the analysis, for an image that has loaded and a worker that
      has started.  The recognizer's answer is an input: its words, or \<open>None\<close> when the
      race against the timer is lost or the recognizer fails.\<close>
  "analyzeTicketImage img ocr random =
     (case createBinaryCanvas img of
        Inl e \<Rightarrow> Inl e
      | Inr (ctx, width, height, binaryData) \<Rightarrow>
          let ticketsRaw = detectTicketsInImage width height binaryData in
          (case generateCompositeCanvas ctx ticketsRaw of
             Inl e \<Rightarrow> Inl e
           | Inr cellMap \<Rightarrow>
               (case ocr of
                  None \<Rightarrow> Inl OCRTimeout
                | Some ws \<Rightarrow>
                    let ocrWords = map toDetectedWord ws
                    in sequence (map (processTicket ocrWords cellMap random)
                                     [0..<length ticketsRaw]))))"

section \<open>Notions used in the statements and proofs\<close>

subsection \<open>Dense ink, as the specification words it\<close>

definition cropInk :: "Canvas \<Rightarrow> int \<Rightarrow> int \<Rightarrow> nat \<Rightarrow> nat \<Rightarrow> int \<Rightarrow> int \<Rightarrow> bool" where
  \<comment> \<open>the position \<open>(x, y)\<close> of the crop of size \<open>w\<close> by \<open>h\<close> at \<open>(sx, sy)\<close> lies in the crop
      and is ink\<close>
  "cropInk ctx sx sy w h x y =
     (0 \<le> x \<and> x < int w \<and> 0 \<le> y \<and> y < int h \<and> pixelAt ctx (sx + x) (sy + y) = black)"

definition denseInk :: "Canvas \<Rightarrow> int \<Rightarrow> int \<Rightarrow> nat \<Rightarrow> nat \<Rightarrow> int \<Rightarrow> int \<Rightarrow> bool" where
  \<comment> \<open>an ink pixel of the crop with at least 6 of its 8 neighbours ink pixels of the crop\<close>
  "denseInk ctx sx sy w h x y =
     (cropInk ctx sx sy w h x y \<and>
      countTrue
        [cropInk ctx sx sy w h (x - 1) (y - 1), cropInk ctx sx sy w h x (y - 1),
         cropInk ctx sx sy w h (x + 1) (y - 1), cropInk ctx sx sy w h (x - 1) y,
         cropInk ctx sx sy w h (x + 1) y, cropInk ctx sx sy w h (x - 1) (y + 1),
         cropInk ctx sx sy w h x (y + 1), cropInk ctx sx sy w h (x + 1) (y + 1)] \<ge> 6)"

definition denseInkCount :: "Canvas \<Rightarrow> int \<Rightarrow> int \<Rightarrow> nat \<Rightarrow> nat \<Rightarrow> nat" where
  \<comment> \<open>the number of dense-ink pixels among all pixels of the crop\<close>
  "denseInkCount ctx sx sy w h =
     length (filter (\<lambda>(y, x). denseInk ctx sx sy w h (int x) (int y))
               (List.product [0..<h] [0..<w]))"

subsection \<open>The state of the flood fill\<close>

definition inGrid :: "Env \<Rightarrow> int \<times> int \<Rightarrow> bool" where
  \<comment> \<open>a cell of the downsampled grid\<close>
  "inGrid env c = (0 \<le> fst c \<and> fst c < int (env_sW env) \<and> 0 \<le> snd c \<and> snd c < int (env_sH env))"

definition vis :: "Env \<Rightarrow> nat list \<Rightarrow> int \<times> int \<Rightarrow> bool" where
  \<comment> \<open>the cell is marked in \<^verbatim>\<open>visited\<close>\<close>
  "vis env v c = (v ! nat (idx env (fst c) (snd c)) \<noteq> 0)"

definition allPaper :: "Env \<Rightarrow> bool" where
  \<comment> \<open>every cell of the grid stands for a paper pixel\<close>
  "allPaper env = (\<forall>c. inGrid env c \<longrightarrow> readAt (env_data env) (originalIdx env (fst c) (snd c)) = Some 1)"

definition nbrs :: "int \<times> int \<Rightarrow> (int \<times> int) list" where
  \<comment> \<open>the four neighbours, in the order of the source\<close>
  "nbrs c = [(fst c + 1, snd c), (fst c - 1, snd c), (fst c, snd c + 1), (fst c, snd c - 1)]"

definition covered :: "int \<times> int \<times> int \<times> int \<Rightarrow> int \<times> int \<Rightarrow> bool" where
  \<comment> \<open>the cell lies in the bounding box\<close>
  "covered box c = (case box of (minX, maxX, minY, maxY) \<Rightarrow>
     minX \<le> fst c \<and> fst c \<le> maxX \<and> minY \<le> snd c \<and> snd c \<le> maxY)"

definition settled :: "Env \<Rightarrow> nat list \<Rightarrow> int \<times> int \<times> int \<times> int \<Rightarrow> int \<times> int \<Rightarrow> bool" where
  \<comment> \<open>a cell that has been popped: it is in the box and its neighbours are marked\<close>
  "settled env v box c = (covered box c \<and> (\<forall>n\<in>set (nbrs c). inGrid env n \<longrightarrow> vis env v n))"

definition grows :: "Env \<Rightarrow> nat list \<times> (int \<times> int) list \<Rightarrow> nat list \<times> (int \<times> int) list \<Rightarrow> bool" where
  \<comment> \<open>from one state of the marks and the stack to a later one: marks and stack entries
      stay, and a newly marked cell is on the stack\<close>
  "grows env st st' =
     (length (fst st') = length (fst st)
      \<and> (\<forall>c. inGrid env c \<longrightarrow> vis env (fst st) c \<longrightarrow> vis env (fst st') c)
      \<and> set (snd st) \<subseteq> set (snd st')
      \<and> (\<forall>c. inGrid env c \<longrightarrow> vis env (fst st') c \<longrightarrow> vis env (fst st) c \<or> c \<in> set (snd st')))"

definition floodInv :: "Env \<Rightarrow> nat list \<Rightarrow> (int \<times> int) list \<Rightarrow> int \<times> int \<times> int \<times> int \<Rightarrow> bool" where
  \<comment> \<open>the invariant of the flood fill: a marked cell is on the stack or settled\<close>
  "floodInv env v q box =
     (length v = env_sW env * env_sH env
      \<and> (\<forall>c. inGrid env c \<longrightarrow> vis env v c \<longrightarrow> c \<in> set q \<or> settled env v box c))"

subsection \<open>Runs of rows, as the specification words them\<close>

definition gapBefore :: "Row \<Rightarrow> Row \<Rightarrow> bool" where
  \<comment> \<open>between a row and the next there is a vertical gap of at least 0.2 times the
      height of the next\<close>
  "gapBefore prev row = (row_y row - (row_y prev + row_h prev) \<ge> row_h row * (2 / 10))"

fun noGap :: "Row list \<Rightarrow> bool" where
  \<comment> \<open>no two rows that follow each other are separated by a gap\<close>
  "noGap (r # s # rs) = (\<not> gapBefore r s \<and> noGap (s # rs))"
| "noGap rs = True"

fun splitAtGaps :: "Row list \<Rightarrow> Row list list" where
  \<comment> \<open>the rows cut into runs at every gap\<close>
  "splitAtGaps [] = []"
| "splitAtGaps [r] = [[r]]"
| "splitAtGaps (r # s # rs) =
     (if gapBefore r s then [r] # splitAtGaps (s # rs)
      else (case splitAtGaps (s # rs) of
              [] \<Rightarrow> [[r]]
            | run # runs \<Rightarrow> (r # run) # runs))"

subsection \<open>Number mappings and their sprites\<close>

definition numberMappings :: "MappedCell list \<Rightarrow> MappedCell list" where
  \<comment> \<open>the mappings of type number, in the order of the map\<close>
  "numberMappings cellMap = filter (\<lambda>m. cellType m = Number) cellMap"

definition disjointRects :: "Rect \<Rightarrow> Rect \<Rightarrow> bool" where
  \<comment> \<open>one rectangle ends before the other begins, horizontally or vertically\<close>
  "disjointRects a b =
     (rx a + rw a \<le> rx b \<or> rx b + rw b \<le> rx a \<or> ry a + rh a \<le> ry b \<or> ry b + rh b \<le> ry a)"

definition rank :: "MappedCell \<Rightarrow> nat" where
  \<comment> \<open>the position of a cell in the order ticket, row, column\<close>
  "rank m = ticketIndex m * 18 + rowIndex m * 6 + colIndex m"

definition wellPlaced :: "MappedCell \<Rightarrow> bool" where
  \<comment> \<open>a mapping of a cell of the 3 by 6 grid with the sprite of that cell\<close>
  "wellPlaced m =
     (rowIndex m < 3 \<and> colIndex m < 6
      \<and> spriteRect m = numberSprite (ticketIndex m) (rowIndex m) (colIndex m))"

definition cellPositions :: "(nat \<times> nat) list" where
  \<comment> \<open>the pairs \<open>(r, c)\<close> in the order of the two loops\<close>
  "cellPositions = List.product [0..<3] [0..<6]"

subsection \<open>Grids of results\<close>

definition validGrid :: "int list list \<Rightarrow> bool" where
  \<comment> \<open>3 rows of 6 cells, each cell 0 or a number from 1 to 99\<close>
  "validGrid g =
     (length g = 3
      \<and> list_all (\<lambda>row. length row = 6 \<and> list_all (\<lambda>v. v = 0 \<or> (1 \<le> v \<and> v \<le> 99)) row) g)"

subsection \<open>The pattern of an identifier\<close>

definition slashPattern :: "string \<Rightarrow> string \<Rightarrow> string \<Rightarrow> bool" where
  \<comment> \<open>the text holds 1 to 5 digits \<open>l\<close>, blanks, a slash, blanks and 1 to 5 digits \<open>r\<close>\<close>
  "slashPattern s l r =
     (\<exists>pre s1 s2 post.
        s = pre @ l @ s1 @ ''/'' @ s2 @ r @ post
        \<and> l \<noteq> [] \<and> length l \<le> 5 \<and> list_all isDigit l
        \<and> list_all isSpace s1 \<and> list_all isSpace s2
        \<and> r \<noteq> [] \<and> length r \<le> 5 \<and> list_all isDigit r)"

subsection \<open>The fallback of the identifier, as the specification words it\<close>

definition statedLooseText :: "string \<Rightarrow> string" where
  \<comment> \<open>everything but digits and whitespace stripped\<close>
  "statedLooseText processed = filter (\<lambda>c. isDigit c \<or> isSpace c) processed"

definition statedFallback :: "string \<Rightarrow> string option" where
  \<comment> \<open>split on whitespace; with at least two tokens, the last two joined by a slash\<close>
  "statedFallback processed =
     (let parts = splitSpaces (statedLooseText processed)
      in if length parts \<ge> 2
         then Some (parts ! (length parts - 2) @ ''/'' @ parts ! (length parts - 1))
         else None)"

section \<open>Example data\<close>

definition firstSprite :: MappedCell where
  \<comment> \<open>the mapping of cell (0, 0) of ticket 0\<close>
  "firstSprite =
     \<lparr>ticketIndex = 0, rowIndex = 0, colIndex = 0, spriteRect = numberSprite 0 0 0,
      originalRect = \<lparr>rx = 15, ry = 0, rw = 12, rh = 9\<rparr>, cellType = Number\<rparr>"

definition emptyGrid :: "int list list" where
  "emptyGrid = replicate 3 (replicate 6 0)"

definition blackSquare :: "32 word list" where
  \<comment> \<open>the pixels of a 3 by 3 image, all ink\<close>
  "blackSquare = replicate 9 black"

definition wholeSquare :: Rect where
  \<comment> \<open>a protected rectangle covering the 3 by 3 image\<close>
  "wholeSquare = \<lparr>rx = 0, ry = 0, rw = 3, rh = 3\<rparr>"

definition blockCanvas :: "nat \<Rightarrow> Canvas" where
  \<comment> \<open>a white canvas of 20 by 10 pixels with an ink block of \<open>n\<close> by 3 pixels\<close>
  "blockCanvas n =
     \<lparr>cwidth = 20, cheight = 10,
      cpixels = concat (map (\<lambda>y. map (\<lambda>x. if 2 \<le> y \<and> y < 5 \<and> 2 \<le> x \<and> x < 2 + n
                                             then black else white) [0..<20]) [0..<10])\<rparr>"

definition whiteImage :: Image where
  \<comment> \<open>an image of 2 by 2 white pixels\<close>
  "whiteImage = \<lparr>iwidth = 2, iheight = 2, idata = replicate 16 255\<rparr>"

definition sevenComponents :: "Rect list" where
  \<comment> \<open>three squares one pixel apart, and 8 pixels below them four more\<close>
  "sevenComponents =
     map (\<lambda>y. \<lparr>rx = 15, ry = y, rw = 12, rh = 10\<rparr>) [0, 11, 22, 40, 51, 62, 73]"

definition skewedComponents :: "Rect list" where
  \<comment> \<open>three squares below each other, each further to the right\<close>
  "skewedComponents =
     [\<lparr>rx = 4, ry = 0, rw = 10, rh = 10\<rparr>, \<lparr>rx = 8, ry = 11, rw = 12, rh = 10\<rparr>,
      \<lparr>rx = 13, ry = 22, rw = 12, rh = 10\<rparr>]"

definition skewedRows :: "Row list" where
  \<comment> \<open>the rows of the ticket detected from \<open>skewedComponents\<close>\<close>
  "skewedRows =
     [\<lparr>row_y = 0, row_h = 10, cells = [\<lparr>rx = 4, ry = 0, rw = 10, rh = 10\<rparr>]\<rparr>,
      \<lparr>row_y = 11, row_h = 10, cells = [\<lparr>rx = 8, ry = 11, rw = 12, rh = 10\<rparr>]\<rparr>,
      \<lparr>row_y = 22, row_h = 10, cells = [\<lparr>rx = 13, ry = 22, rw = 12, rh = 10\<rparr>]\<rparr>]"

definition ticketCanvas :: Canvas where
  \<comment> \<open>three white squares of 9 by 9 pixels below each other, an ink line between them and
      an ink block of 3 by 3 pixels in the middle of each\<close>
  "ticketCanvas =
     \<lparr>cwidth = 9, cheight = 29,
      cpixels = concat (map (\<lambda>y. map (\<lambda>x.
                  if y mod 10 = 9 \<or> (2 \<le> x \<and> x < 5 \<and> 2 \<le> y mod 10 \<and> y mod 10 < 5)
                  then black else white) [0..<9]) [0..<29])\<rparr>"

definition threeComponents :: "Rect list" where
  \<comment> \<open>the three squares of \<open>ticketCanvas\<close>\<close>
  "threeComponents =
     [\<lparr>rx = 0, ry = 0, rw = 9, rh = 9\<rparr>, \<lparr>rx = 0, ry = 10, rw = 9, rh = 9\<rparr>,
      \<lparr>rx = 0, ry = 20, rw = 9, rh = 9\<rparr>]"

definition threeRows :: "Row list" where
  "threeRows =
     map (\<lambda>r. \<lparr>row_y = of_nat (10 * r), row_h = 9,
                  cells = [\<lparr>rx = 0, ry = of_nat (10 * r), rw = 9, rh = 9\<rparr>]\<rparr>) [0..<3]"

definition sampleGrid :: "GridRow list" where
  \<comment> \<open>the interpolated grid of \<open>threeRows\<close>\<close>
  "sampleGrid =
     map (\<lambda>r. \<lparr>grid_cells = map (\<lambda>x. \<lparr>rx = x, ry = of_nat (10 * r), rw = 9, rh = 9\<rparr>)
                                    [0, 9, 18, 28, 37, 47],
                  rowY = of_nat (10 * r), rowH = 9\<rparr>) [0..<3]"

definition sampleMap :: "MappedCell list" where
  \<comment> \<open>the map of \<open>ticketCanvas\<close>: the first cell of each row has ink\<close>
  "sampleMap =
     map (\<lambda>r. \<lparr>ticketIndex = 0, rowIndex = r, colIndex = 0, spriteRect = numberSprite 0 r 0,
                  originalRect = \<lparr>rx = 0, ry = of_nat (10 * r), rw = 9, rh = 9\<rparr>,
                  cellType = Number\<rparr>) [0..<3]"

definition sampleWords :: "DetectedWord list" where
  \<comment> \<open>a word in the sprite of cell (0, 0) and one in the sprite of cell (2, 0)\<close>
  "sampleWords = [wordAt ''42'' 430 430 100 100 90, wordAt ''7'' 430 1550 100 100 80]"

definition idMapping :: MappedCell where
  \<comment> \<open>an identifier mapping of ticket 0\<close>
  "idMapping =
     \<lparr>ticketIndex = 0, rowIndex = 2, colIndex = 6,
      spriteRect = \<lparr>rx = 3760, ry = 1520, rw = 218, rh = 160\<rparr>,
      originalRect = \<lparr>rx = 468 / 5, ry = 26, rw = 82 / 5, rh = 12\<rparr>, cellType = Id\<rparr>"

definition scheinWords :: "DetectedWord list" where
  "scheinWords =
     [wordAt ''SCHEIN'' 3770 1560 60 80 85, wordAt ''160'' 3840 1560 40 80 90,
      wordAt ''/'' 3885 1560 10 80 70, wordAt ''400'' 3900 1560 40 80 90]"

definition plainWords :: "DetectedWord list" where
  "plainWords = [wordAt ''160'' 3840 1560 40 80 90, wordAt ''400'' 3900 1560 40 80 90]"

definition hyphenWords :: "DetectedWord list" where
  \<comment> \<open>one word in the identifier sprite, the slash read as a hyphen\<close>
  "hyphenWords = [wordAt ''160-400'' 3840 1560 100 80 90]"

section \<open>Cleaning passes\<close>

lemma erodeStep_length [simp]:
  "length (erodeStep iter width rs inp y x out) = length out"
  by (simp add: erodeStep_def Let_def)

lemma erodeStep_elsewhere:
  "j \<noteq> y * width + x \<Longrightarrow> erodeStep iter width rs inp y x out ! j = out ! j"
  by (simp add: erodeStep_def Let_def)

lemma erodeStep_protected:
  "isProtected rs x y \<Longrightarrow> y * width + x < length out \<Longrightarrow>
   erodeStep iter width rs inp y x out ! (y * width + x) = inp ! (y * width + x)"
  by (simp add: erodeStep_def Let_def)

lemma erode_row_length [simp]:
  "length (fold (erodeStep iter width rs inp y) xs out) = length out"
  by (induction xs arbitrary: out) auto

lemma erode_row_elsewhere:
  "\<forall>x\<in>set xs. j \<noteq> y * width + x \<Longrightarrow>
   fold (erodeStep iter width rs inp y) xs out ! j = out ! j"
  by (induction xs arbitrary: out) (auto simp: erodeStep_elsewhere)

lemma erode_row_protected:
  "x \<in> set xs \<Longrightarrow> distinct xs \<Longrightarrow> isProtected rs x y \<Longrightarrow> y * width + x < length out \<Longrightarrow>
   fold (erodeStep iter width rs inp y) xs out ! (y * width + x) = inp ! (y * width + x)"
proof (induction xs arbitrary: out)
  case Nil
  then show ?case by simp
next
  case (Cons a xs)
  show ?case
  proof (cases "a = x")
    case True
    with Cons.prems have "x \<notin> set xs" by simp
    then have "\<forall>x'\<in>set xs. y * width + x \<noteq> y * width + x'" by auto
    then show ?thesis using True Cons.prems
      by (simp add: erode_row_elsewhere erodeStep_protected)
  next
    case False
    with Cons show ?thesis by simp
  qed
qed

lemma erode_rows_length [simp]:
  "length (fold (\<lambda>y. fold (erodeStep iter width rs inp y) xs) ys out) = length out"
  by (induction ys arbitrary: out) auto

lemma erode_rows_elsewhere:
  "\<forall>y\<in>set ys. \<forall>x\<in>set xs. j \<noteq> y * width + x \<Longrightarrow>
   fold (\<lambda>y. fold (erodeStep iter width rs inp y) xs) ys out ! j = out ! j"
  by (induction ys arbitrary: out) (auto simp: erode_row_elsewhere)

lemma erode_rows_protected:
  "y \<in> set ys \<Longrightarrow> distinct ys \<Longrightarrow> x \<in> set xs \<Longrightarrow> distinct xs \<Longrightarrow> \<forall>x'\<in>set xs. x' < width \<Longrightarrow>
   isProtected rs x y \<Longrightarrow> y * width + x < length out \<Longrightarrow>
   fold (\<lambda>y. fold (erodeStep iter width rs inp y) xs) ys out ! (y * width + x)
     = inp ! (y * width + x)"
proof (induction ys arbitrary: out)
  case Nil
  then show ?case by simp
next
  case (Cons a ys)
  show ?case
  proof (cases "a = y")
    case True
    with Cons.prems have ny: "y \<notin> set ys" by simp
    have "\<forall>y'\<in>set ys. \<forall>x'\<in>set xs. y * width + x \<noteq> y' * width + x'"
    proof (intro ballI notI)
      fix y' x' assume a: "y' \<in> set ys" "x' \<in> set xs" "y * width + x = y' * width + x'"
      have xw: "x < width" "x' < width" using Cons.prems a by auto
      from a(3) have "(y * width + x) div width = (y' * width + x') div width" by simp
      with xw have "y = y'" by simp
      with a ny show False by simp
    qed
    then show ?thesis using True Cons.prems
      by (simp add: erode_rows_elsewhere erode_row_protected)
  next
    case False
    with Cons show ?thesis by simp
  qed
qed

lemma pixel_index_less: "j < h \<Longrightarrow> i < w \<Longrightarrow> j * w + i < h * (w::nat)"
proof -
  assume a: "j < h" "i < w"
  have "j * w + i < j * w + w" using a by simp
  also have "\<dots> = (j + 1) * w" by simp
  also have "\<dots> \<le> h * w" using a by (intro mult_le_mono1) simp
  finally show ?thesis .
qed

lemma erodePass_length:
  "length (erodePass iter width height rs inp) = width * height"
  by (simp add: erodePass_def)

lemma erodePass_interior_protected:
  assumes "1 \<le> x" "x + 1 < width" "1 \<le> y" "y + 1 < height" "isProtected rs x y"
  shows "erodePass iter width height rs inp ! (y * width + x) = inp ! (y * width + x)"
proof -
  have "y * width + x < height * width" using assms by (intro pixel_index_less) auto
  then show ?thesis
    unfolding erodePass_def using assms
    by (intro erode_rows_protected) (auto simp: mult.commute)
qed

lemma erodePass_border:
  assumes "x < width" "y < height" "x = 0 \<or> y = 0 \<or> x + 1 = width \<or> y + 1 = height"
  shows "erodePass iter width height rs inp ! (y * width + x) = white"
proof -
  have lt: "y * width + x < height * width" using assms by (intro pixel_index_less) auto
  have "\<forall>y'\<in>set [1..<height - 1]. \<forall>x'\<in>set [1..<width - 1]. y * width + x \<noteq> y' * width + x'"
  proof (intro ballI notI)
    fix y' x' assume a: "y' \<in> set [1..<height - 1]" "x' \<in> set [1..<width - 1]"
      "y * width + x = y' * width + x'"
    have xw: "x < width" "x' < width" using assms a by auto
    from a(3) have "(y * width + x) div width = (y' * width + x') div width"
      "(y * width + x) mod width = (y' * width + x') mod width" by simp_all
    with xw have "y = y'" "x = x'" by simp_all
    with a assms show False by auto
  qed
  then show ?thesis
    unfolding erodePass_def using lt by (simp add: erode_rows_elsewhere mult.commute)
qed

text \<open>
  C7, as the code has it.  In every pass, erosion or despeckle, a pixel inside a protected
  rectangle that does not lie on the outermost ring of the image keeps the value it has in
  the input of the pass, and every pixel of the outermost ring is white (paper) in the
  output of the pass, whether a protected rectangle covers it or not.
\<close>

theorem erodePass_protected_interior_and_border:
  assumes "x < width" and "y < height"
  shows "(1 \<le> x \<and> x + 1 < width \<and> 1 \<le> y \<and> y + 1 < height \<and> isProtected protectedRects x y
            \<longrightarrow> erodePass iter width height protectedRects inputData ! (y * width + x)
                  = inputData ! (y * width + x))
         \<and> (x = 0 \<or> y = 0 \<or> x + 1 = width \<or> y + 1 = height
            \<longrightarrow> erodePass iter width height protectedRects inputData ! (y * width + x) = white)"
  using assms erodePass_interior_protected erodePass_border by blast

theorem erodePass_protected_interior_and_border_witness:
  "(1::nat) < 3 \<and> isProtected [wholeSquare] 1 1
   \<and> erodePass 1 3 3 [wholeSquare] blackSquare ! (1 * 3 + 1) = blackSquare ! (1 * 3 + 1)
   \<and> erodePass 1 3 3 [wholeSquare] blackSquare ! (0 * 3 + 0) = white"
proof -
  have p: "isProtected [wholeSquare] 1 1" by code_simp
  have l: "(1::nat) < 3" "(0::nat) < 3" by simp_all
  from erodePass_protected_interior_and_border
         [OF l(1) l(1), of "[wholeSquare]" 1 blackSquare] p
  have a: "erodePass 1 3 3 [wholeSquare] blackSquare ! (1 * 3 + 1) = blackSquare ! (1 * 3 + 1)"
    by simp
  from erodePass_protected_interior_and_border
         [OF l(2) l(2), of "[wholeSquare]" 1 blackSquare]
  have b: "erodePass 1 3 3 [wholeSquare] blackSquare ! (0 * 3 + 0) = white"
    by simp
  from p a b show ?thesis by simp
qed

text \<open>
  C7, as the specification states it, fails on the outermost ring: the corner \<open>(0, 0)\<close> of
  a 3 by 3 image of ink lies inside the protected rectangle that covers the whole image,
  and the erosion pass turns it white.
\<close>

theorem protected_border_pixel_is_not_copied:
  "isProtected [wholeSquare] 0 0
   \<and> blackSquare ! (0 * 3 + 0) = black
   \<and> erodePass 0 3 3 [wholeSquare] blackSquare ! (0 * 3 + 0) = white
   \<and> erodePass 0 3 3 [wholeSquare] blackSquare ! (0 * 3 + 0) \<noteq> blackSquare ! (0 * 3 + 0)"
  by code_simp

section \<open>The ink test\<close>

lemma concat_rows_length:
  "length (concat (map (\<lambda>j. map (g j) [0..<w]) [0..<h])) = h * w"
  by (induction h) auto

lemma concat_rows_nth:
  "j < h \<Longrightarrow> i < w \<Longrightarrow> concat (map (\<lambda>j. map (g j) [0..<w]) [0..<h]) ! (j * w + i) = g j i"
proof (induction h)
  case 0
  then show ?case by simp
next
  case (Suc h)
  show ?case
  proof (cases "j < h")
    case True
    then have "j * w + i < h * w" using Suc.prems by (intro pixel_index_less) auto
    then show ?thesis using Suc True
      by (simp add: nth_append concat_rows_length)
  next
    case False
    with Suc.prems have "j = h" by simp
    then show ?thesis using Suc.prems
      by (simp add: nth_append concat_rows_length)
  qed
qed

lemma readIs_crop:
  assumes "0 < w" "0 < h" "getImageData ctx sx sy w h = Inr data" "j < nat h" "i < nat w"
  shows "readIs data (j * nat w + i) black = cropInk ctx sx sy (nat w) (nat h) (int i) (int j)"
proof -
  have d: "data = concat (map (\<lambda>j. map (\<lambda>i. pixelAt ctx (sx + int i) (sy + int j))
                                    [0..<nat w]) [0..<nat h])"
    using assms by (simp add: getImageData_def)
  have "j * nat w + i < nat h * nat w" using assms by (intro pixel_index_less) auto
  then show ?thesis using assms
    by (auto simp: d readIs_def cropInk_def concat_rows_nth concat_rows_length)
qed

lemma isDense_interior:
  assumes "0 < w" "0 < h" "getImageData ctx sx sy w h = Inr data"
    "1 \<le> j" "j + 1 < nat h" "1 \<le> i" "i + 1 < nat w"
  shows "isDense data (nat w) (j * nat w + i) = denseInk ctx sx sy (nat w) (nat h) (int i) (int j)"
proof -
  note r = readIs_crop [OF assms(1-3)]
  have e1: "j * nat w + i - 1 = j * nat w + (i - 1)" using assms by simp
  have e2: "j * nat w + i + 1 = j * nat w + (i + 1)" by simp
  have e3: "j * nat w + i - nat w = (j - 1) * nat w + i" using assms
    by (cases j) auto
  have e4: "j * nat w + i + nat w = (j + 1) * nat w + i" by simp
  have e5: "j * nat w + i - nat w - 1 = (j - 1) * nat w + (i - 1)" using assms e3 by simp
  have e6: "j * nat w + i - nat w + 1 = (j - 1) * nat w + (i + 1)" using assms e3 by simp
  have e7: "j * nat w + i + nat w - 1 = (j + 1) * nat w + (i - 1)" using assms by simp
  have e8: "j * nat w + i + nat w + 1 = (j + 1) * nat w + (i + 1)" by simp
  have i1: "int (i - 1) = int i - 1" "int (j - 1) = int j - 1" using assms by auto
  have "readIs data (j * nat w + i) black = cropInk ctx sx sy (nat w) (nat h) (int i) (int j)"
    using assms by (intro r) auto
  moreover have "readIs data (j * nat w + i - 1) black
                 = cropInk ctx sx sy (nat w) (nat h) (int i - 1) (int j)"
    unfolding e1 using assms r[of j "i - 1"] by (simp add: i1 add.commute)
  moreover have "readIs data (j * nat w + i + 1) black
                 = cropInk ctx sx sy (nat w) (nat h) (int i + 1) (int j)"
    unfolding e2 using assms r[of j "i + 1"] by (simp add: i1 add.commute)
  moreover have "readIs data (j * nat w + i - nat w) black
                 = cropInk ctx sx sy (nat w) (nat h) (int i) (int j - 1)"
    unfolding e3 using assms r[of "j - 1" "i"] by (simp add: i1 add.commute)
  moreover have "readIs data (j * nat w + i + nat w) black
                 = cropInk ctx sx sy (nat w) (nat h) (int i) (int j + 1)"
    unfolding e4 using assms r[of "j + 1" "i"] by (simp add: i1 add.commute)
  moreover have "readIs data (j * nat w + i - nat w - 1) black
                 = cropInk ctx sx sy (nat w) (nat h) (int i - 1) (int j - 1)"
    unfolding e5 using assms r[of "j - 1" "i - 1"] by (simp add: i1 add.commute)
  moreover have "readIs data (j * nat w + i - nat w + 1) black
                 = cropInk ctx sx sy (nat w) (nat h) (int i + 1) (int j - 1)"
    unfolding e6 using assms r[of "j - 1" "i + 1"] by (simp add: i1 add.commute)
  moreover have "readIs data (j * nat w + i + nat w - 1) black
                 = cropInk ctx sx sy (nat w) (nat h) (int i - 1) (int j + 1)"
    unfolding e7 using assms r[of "j + 1" "i - 1"] by (simp add: i1 add.commute)
  moreover have "readIs data (j * nat w + i + nat w + 1) black
                 = cropInk ctx sx sy (nat w) (nat h) (int i + 1) (int j + 1)"
    unfolding e8 using assms r[of "j + 1" "i + 1"] by (simp add: i1 add.commute)
  ultimately show ?thesis
    unfolding isDense_def denseInk_def Let_def countTrue_def
    by (simp only:) (auto simp: conj_commute)
qed

lemma denseInk_border:
  assumes "x = 0 \<or> y = 0 \<or> x + 1 = int w \<or> y + 1 = int h"
  shows "\<not> denseInk ctx sx sy w h x y"
  using assms unfolding denseInk_def countTrue_def cropInk_def
  by (elim disjE) (auto split: if_splits)

lemma dense_count_eq:
  assumes "0 < w" "0 < h" "getImageData ctx sx sy w h = Inr data"
  shows "length (filter (\<lambda>(yy, xx). isDense data (nat w) (yy * nat w + xx))
                  (List.product [1..<nat (h - 1)] [1..<nat (w - 1)]))
         = denseInkCount ctx sx sy (nat w) (nat h)"
proof -
  let ?Q = "\<lambda>(yy, xx). isDense data (nat w) (yy * nat w + xx)"
  let ?P = "\<lambda>(y, x). denseInk ctx sx sy (nat w) (nat h) (int x) (int y)"
  let ?I = "List.product [1..<nat (h - 1)] [1..<nat (w - 1)]"
  let ?A = "List.product [0..<nat h] [0..<nat w]"
  have dI: "distinct ?I" and dA: "distinct ?A" by (simp_all add: distinct_product)
  have "{p. ?Q p} \<inter> set ?I = {p. ?P p} \<inter> set ?A"
  proof (rule set_eqI, clarify, rule iffI)
    fix y x assume "(y, x) \<in> {p. ?Q p} \<inter> set ?I"
    then have q: "isDense data (nat w) (y * nat w + x)"
      and r: "1 \<le> y" "y + 1 < nat h" "1 \<le> x" "x + 1 < nat w" by auto
    from q isDense_interior [OF assms r]
    show "(y, x) \<in> {p. ?P p} \<inter> set ?A" using r by auto
  next
    fix y x assume "(y, x) \<in> {p. ?P p} \<inter> set ?A"
    then have p: "denseInk ctx sx sy (nat w) (nat h) (int x) (int y)"
      and r: "y < nat h" "x < nat w" by auto
    have nb: "\<not> (int x = 0 \<or> int y = 0 \<or> int x + 1 = int (nat w) \<or> int y + 1 = int (nat h))"
      using p denseInk_border by blast
    then have r': "1 \<le> y" "y + 1 < nat h" "1 \<le> x" "x + 1 < nat w" using r assms by auto
    from p isDense_interior [OF assms r']
    show "(y, x) \<in> {p. ?Q p} \<inter> set ?I" using r' by auto
  qed
  then show ?thesis
    unfolding denseInkCount_def
    by (simp only: distinct_length_filter [OF dI] distinct_length_filter [OF dA])
qed

text \<open>
  C8.  For a crop of positive width and height, \<^verbatim>\<open>hasInk\<close> answers that the crop has
  content exactly when the number of dense-ink pixels of the crop (ink pixels with at
  least 6 of their 8 neighbours ink, neighbours outside the crop not counting) is strictly
  more than one hundredth of the crop's area.
\<close>

theorem hasInk_iff_dense_fraction:
  assumes "0 < w" and "0 < h"
  shows "hasInk ctx sx sy w h
         = Inr (int (denseInkCount ctx sx sy (nat w) (nat h)) * 100 > w * h)"
proof -
  obtain data where d: "getImageData ctx sx sy w h = Inr data"
    using assms by (simp add: getImageData_def)
  have pos: "0 < w * h" using assms by simp
  let ?n = "denseInkCount ctx sx sy (nat w) (nat h)"
  have "((1 / 100 :: rat) < of_nat ?n / of_int (w * h)) = (w * h < int ?n * 100)"
  proof -
    have rpos: "0 < (of_int (w * h) :: rat)" using pos by (simp only: of_int_0_less_iff)
    have "((1 / 100 :: rat) < of_nat ?n / of_int (w * h))
          = ((1 / 100 :: rat) * of_int (w * h) < of_nat ?n)"
      by (rule pos_less_divide_eq [OF rpos])
    also have "\<dots> = ((of_int (w * h) :: rat) < of_int (int ?n * 100))"
      by simp
    also have "\<dots> = (w * h < int ?n * 100)" by (simp only: of_int_less_iff)
    finally show ?thesis .
  qed
  then show ?thesis
    using d dense_count_eq [OF assms d] by (simp add: hasInk_def Let_def)
qed

text \<open>
  The two crops of the specification: 3 dense-ink pixels in 200 (1.5 per cent) give
  content, 1 dense-ink pixel in 200 (0.5 per cent) gives none.
\<close>

theorem hasInk_iff_dense_fraction_witness:
  "(0::int) < 20 \<and> (0::int) < 10
   \<and> denseInkCount (blockCanvas 5) 0 0 20 10 = 3 \<and> hasInk (blockCanvas 5) 0 0 20 10 = Inr True
   \<and> denseInkCount (blockCanvas 3) 0 0 20 10 = 1 \<and> hasInk (blockCanvas 3) 0 0 20 10 = Inr False"
proof -
  have l: "(0::int) < 20" "(0::int) < 10" by simp_all
  have c5: "denseInkCount (blockCanvas 5) 0 0 20 10 = 3" by code_simp
  have c3: "denseInkCount (blockCanvas 3) 0 0 20 10 = 1" by code_simp
  from hasInk_iff_dense_fraction [OF l, of "blockCanvas 5" 0 0] c5
  have a: "hasInk (blockCanvas 5) 0 0 20 10 = Inr True" by simp
  from hasInk_iff_dense_fraction [OF l, of "blockCanvas 3" 0 0] c3
  have b: "hasInk (blockCanvas 3) 0 0 20 10 = Inr False" by simp
  from c5 c3 a b show ?thesis by simp
qed

section \<open>The component detector on an all-paper image\<close>

lemma idx_range:
  "inGrid env c \<Longrightarrow> 0 \<le> idx env (fst c) (snd c) \<and> idx env (fst c) (snd c) < int (env_sW env * env_sH env)"
proof -
  assume a: "inGrid env c"
  obtain x y where c: "c = (x, y)" by (cases c)
  from a c have r: "0 \<le> x" "x < int (env_sW env)" "0 \<le> y" "y < int (env_sH env)"
    by (auto simp: inGrid_def)
  have "y * int (env_sW env) + x < y * int (env_sW env) + int (env_sW env)" using r by simp
  also have "\<dots> = (y + 1) * int (env_sW env)" by (simp add: algebra_simps)
  also have "\<dots> \<le> int (env_sH env) * int (env_sW env)"
    using r by (intro mult_right_mono) auto
  finally show ?thesis using r c by (simp add: idx_def mult.commute)
qed

lemma idx_inj:
  assumes "inGrid env c" "inGrid env d" "idx env (fst c) (snd c) = idx env (fst d) (snd d)"
  shows "c = d"
proof -
  obtain x y where c: "c = (x, y)" by (cases c)
  obtain x' y' where d: "d = (x', y')" by (cases d)
  from assms c d have r: "0 \<le> x" "x < int (env_sW env)" "0 \<le> x'" "x' < int (env_sW env)"
    and e: "y * int (env_sW env) + x = y' * int (env_sW env) + x'"
    by (auto simp: inGrid_def idx_def)
  from e have "(y * int (env_sW env) + x) div int (env_sW env) = (y' * int (env_sW env) + x') div int (env_sW env)"
    "(y * int (env_sW env) + x) mod int (env_sW env) = (y' * int (env_sW env) + x') mod int (env_sW env)"
    by simp_all
  with r have "y = y'" "x = x'" by simp_all
  then show ?thesis using c d by simp
qed


lemma grows_refl: "grows env st st"
  by (simp add: grows_def)

lemma grows_trans: "grows env a b \<Longrightarrow> grows env b c \<Longrightarrow> grows env a c"
  unfolding grows_def by (intro conjI) (simp, blast, blast, blast)

lemma visitNeighbor_grows_pair:
  assumes len: "length v = env_sW env * env_sH env" and paper: "allPaper env"
  shows "grows env (v, q) (visitNeighbor env (nx, ny) (v, q))
         \<and> (inGrid env (nx, ny) \<longrightarrow> vis env (fst (visitNeighbor env (nx, ny) (v, q))) (nx, ny))"
proof (cases "inGrid env (nx, ny)")
  case False
  then have "visitNeighbor env (nx, ny) (v, q) = (v, q)"
    by (auto simp: visitNeighbor_def inGrid_def)
  then show ?thesis using False by (simp add: grows_refl)
next
  case True
  from idx_range [OF True] len
  have r: "0 \<le> idx env nx ny" "nat (idx env nx ny) < length v"
    by (simp_all add: nat_less_iff del: of_nat_mult)
  from paper True have w: "readAt (env_data env) (originalIdx env nx ny) = Some 1"
    by (auto simp: allPaper_def)
  have g: "nx \<ge> 0 \<and> nx < int (env_sW env) \<and> ny \<ge> 0 \<and> ny < int (env_sH env)"
    using True by (simp add: inGrid_def)
  show ?thesis
  proof (cases "v ! nat (idx env nx ny) = 0")
    case False
    then have "readAt v (idx env nx ny) \<noteq> Some 0" using r by (simp add: readAt_def)
    then have "visitNeighbor env (nx, ny) (v, q) = (v, q)"
      using g by (simp add: visitNeighbor_def Let_def)
    then show ?thesis using False by (simp add: grows_refl vis_def)
  next
    case z: True
    then have "readAt v (idx env nx ny) = Some 0" using r by (simp add: readAt_def)
    then have e: "visitNeighbor env (nx, ny) (v, q) = (v[nat (idx env nx ny) := 1], (nx, ny) # q)"
      using g w by (simp add: visitNeighbor_def Let_def)
    have a1: "vis env v c \<or> c \<in> set ((nx, ny) # q)"
      if c: "inGrid env c" "vis env (v[nat (idx env nx ny) := 1]) c" for c
    proof (cases "c = (nx, ny)")
      case True
      then show ?thesis by simp
    next
      case False
      have "idx env (fst c) (snd c) \<noteq> idx env nx ny"
        using idx_inj [OF c(1) True] False by auto
      moreover have "0 \<le> idx env (fst c) (snd c)" using idx_range [OF c(1)] by simp
      ultimately have "nat (idx env (fst c) (snd c)) \<noteq> nat (idx env nx ny)"
        using r by simp
      then show ?thesis using c(2) by (simp add: vis_def)
    qed
    have a2: "vis env (v[nat (idx env nx ny) := 1]) c" if "vis env v c" for c
      using that r by (auto simp: vis_def nth_list_update)
    have a3: "vis env (v[nat (idx env nx ny) := 1]) (nx, ny)"
      using r by (simp add: vis_def)
    show ?thesis
      unfolding e grows_def fst_conv snd_conv using a1 a2 a3 by auto
  qed
qed

lemma visitNeighbor_grows:
  assumes len: "length (fst st) = env_sW env * env_sH env" and paper: "allPaper env"
  shows "grows env st (visitNeighbor env n st)
         \<and> (inGrid env n \<longrightarrow> vis env (fst (visitNeighbor env n st)) n)"
  using visitNeighbor_grows_pair [of "fst st" env "snd st" "fst n" "snd n"] assms
  by simp

lemma fold_visit_grows:
  assumes "length (fst st) = env_sW env * env_sH env" and "allPaper env"
  shows "grows env st (fold (visitNeighbor env) ns st)
         \<and> (\<forall>n\<in>set ns. inGrid env n \<longrightarrow> vis env (fst (fold (visitNeighbor env) ns st)) n)"
  using assms(1)
proof (induction ns arbitrary: st)
  case Nil
  show ?case by (simp add: grows_refl)
next
  case (Cons n ns)
  let ?st1 = "visitNeighbor env n st"
  from visitNeighbor_grows [OF Cons.prems assms(2), of n]
  have g1: "grows env st ?st1" and v1: "inGrid env n \<longrightarrow> vis env (fst ?st1) n" by auto
  from g1 Cons.prems have "length (fst ?st1) = env_sW env * env_sH env"
    by (simp add: grows_def)
  from Cons.IH [OF this]
  have g2: "grows env ?st1 (fold (visitNeighbor env) ns ?st1)"
    and v2: "\<forall>m\<in>set ns. inGrid env m \<longrightarrow> vis env (fst (fold (visitNeighbor env) ns ?st1)) m"
    by auto
  from v1 g2 have "inGrid env n \<longrightarrow> vis env (fst (fold (visitNeighbor env) ns ?st1)) n"
    unfolding grows_def by blast
  with v2 grows_trans [OF g1 g2] show ?case by simp
qed

lemma floodFill_settles:
  "allPaper env \<Longrightarrow> floodInv env v q box \<Longrightarrow>
         floodInv env (fst (floodFill env v q box)) [] (snd (floodFill env v q box))
         \<and> (\<forall>c. inGrid env c \<longrightarrow> vis env v c \<longrightarrow> vis env (fst (floodFill env v q box)) c)"
proof (induction env v q box rule: floodFill.induct)
  case (1 env visited box)
  then show ?case by simp
next
  case (2 env visited cx cy queue minX maxX minY maxY)
  define minX' where "minX' = (if cx < minX then cx else minX)"
  define maxX' where "maxX' = (if cx > maxX then cx else maxX)"
  define minY' where "minY' = (if cy < minY then cy else minY)"
  define maxY' where "maxY' = (if cy > maxY then cy else maxY)"
  define st where "st = fold (visitNeighbor env) (nbrs (cx, cy)) (visited, queue)"
  have ff: "floodFill env visited ((cx, cy) # queue) (minX, maxX, minY, maxY)
            = floodFill env (fst st) (snd st) (minX', maxX', minY', maxY')"
    by (simp add: Let_def st_def nbrs_def minX'_def maxX'_def minY'_def maxY'_def)
  from "2.prems" have paper: "allPaper env" by simp
  from "2.prems" have len: "length visited = env_sW env * env_sH env"
    and inv: "\<And>c. inGrid env c \<Longrightarrow> vis env visited c \<Longrightarrow>
                c \<in> set ((cx, cy) # queue) \<or> settled env visited (minX, maxX, minY, maxY) c"
    by (auto simp: floodInv_def)
  from fold_visit_grows [where st = "(visited, queue)" and ns = "nbrs (cx, cy)", OF _ paper] len
  have g: "grows env (visited, queue) st"
    and nv: "\<And>n. n \<in> set (nbrs (cx, cy)) \<Longrightarrow> inGrid env n \<Longrightarrow> vis env (fst st) n"
    by (auto simp: st_def)
  have cov: "covered (minX, maxX, minY, maxY) c \<Longrightarrow> covered (minX', maxX', minY', maxY') c" for c
    by (auto simp: covered_def minX'_def maxX'_def minY'_def maxY'_def)
  have covc: "covered (minX', maxX', minY', maxY') (cx, cy)"
    by (auto simp: covered_def minX'_def maxX'_def minY'_def maxY'_def)
  have mono: "\<And>c. inGrid env c \<Longrightarrow> vis env visited c \<Longrightarrow> vis env (fst st) c"
    using g unfolding grows_def fst_conv snd_conv by blast
  have inv': "floodInv env (fst st) (snd st) (minX', maxX', minY', maxY')"
    unfolding floodInv_def
  proof (intro conjI allI impI)
    show "length (fst st) = env_sW env * env_sH env" using g len by (simp add: grows_def)
  next
    fix c assume c: "inGrid env c" "vis env (fst st) c"
    show "c \<in> set (snd st) \<or> settled env (fst st) (minX', maxX', minY', maxY') c"
    proof (cases "vis env visited c")
      case False
      with g c show ?thesis unfolding grows_def fst_conv snd_conv by blast
    next
      case True
      from inv [OF c(1) True] consider "c = (cx, cy)" | "c \<in> set queue"
        | "settled env visited (minX, maxX, minY, maxY) c" by auto
      then show ?thesis
      proof cases
        case 1
        then show ?thesis using covc nv by (auto simp: settled_def)
      next
        case 2
        then show ?thesis using g unfolding grows_def fst_conv snd_conv by blast
      next
        case 3
        then show ?thesis using cov mono by (auto simp: settled_def)
      qed
    qed
  qed
  from "2.IH" [OF minX'_def maxX'_def minY'_def maxY'_def refl
      st_def [unfolded nbrs_def fst_conv snd_conv] paper inv']
  show ?case unfolding ff using mono by auto
qed


lemma settled_closure:
  assumes fin0: "\<forall>c. inGrid env c \<longrightarrow> vis env v c \<longrightarrow> settled env v box c"
    and start: "inGrid env (0, 0)" "vis env v (0, 0)"
    and c: "inGrid env c"
  shows "vis env v c \<and> covered box c"
proof -
  have fin: "\<And>c. inGrid env c \<Longrightarrow> vis env v c \<Longrightarrow> settled env v box c"
    using fin0 by blast
  have step: "vis env v n" if "inGrid env d" "vis env v d" "n \<in> set (nbrs d)" "inGrid env n" for d n
    using fin [OF that(1,2)] that(3,4) by (auto simp: settled_def)
  have row: "int x < int (env_sW env) \<Longrightarrow> vis env v (int x, 0)" for x :: nat
  proof (induction x)
    case 0
    show ?case using start by simp
  next
    case (Suc x)
    have g: "inGrid env (int x, 0)" "inGrid env (int (Suc x), 0)"
      using Suc.prems start(1) by (auto simp: inGrid_def)
    have "vis env v (int x, 0)" using Suc by simp
    from step [OF g(1) this _ g(2)] show ?case by (simp add: nbrs_def)
  qed
  have col: "int x < int (env_sW env) \<Longrightarrow> int y < int (env_sH env) \<Longrightarrow> vis env v (int x, int y)"
    for x y :: nat
  proof (induction y)
    case 0
    then show ?case using row by simp
  next
    case (Suc y)
    have g: "inGrid env (int x, int y)" "inGrid env (int x, int (Suc y))"
      using Suc.prems by (auto simp: inGrid_def)
    have "vis env v (int x, int y)" using Suc by simp
    from step [OF g(1) this _ g(2)] show ?case by (simp add: nbrs_def)
  qed
  obtain x y where xy: "c = (int x, int y)" "int x < int (env_sW env)" "int y < int (env_sH env)"
  proof -
    from c have "c = (int (nat (fst c)), int (nat (snd c)))"
      "int (nat (fst c)) < int (env_sW env)" "int (nat (snd c)) < int (env_sH env)"
      by (auto simp: inGrid_def)
    then show ?thesis using that by blast
  qed
  from col [OF xy(2,3)] have "vis env v c" using xy by simp
  with fin [OF c] show ?thesis by (simp add: settled_def)
qed

lemma scanCell_visited:
  assumes "length v = env_sW env * env_sH env" "\<And>c. inGrid env c \<Longrightarrow> vis env v c"
    "x < env_sW env" "y < env_sH env"
  shows "scanCell env y x (v, comps) = (v, comps)"
proof -
  have g: "inGrid env (int x, int y)" using assms by (simp add: inGrid_def)
  from idx_range [OF g] assms(1)
  have "0 \<le> idx env (int x) (int y)" "idx env (int x) (int y) < int (length v)"
    by simp_all
  moreover from assms(2) [OF g] have "v ! nat (idx env (int x) (int y)) \<noteq> 0"
    by (simp add: vis_def)
  ultimately have "isVisited env v (int x) (int y)"
    by (simp add: isVisited_def readAt_def)
  then show ?thesis by (simp add: scanCell_def)
qed

lemma scan_row_visited:
  assumes "length v = env_sW env * env_sH env" "\<And>c. inGrid env c \<Longrightarrow> vis env v c"
    "\<forall>x\<in>set xs. x < env_sW env" "y < env_sH env"
  shows "fold (scanCell env y) xs (v, comps) = (v, comps)"
  using assms(3)
proof (induction xs)
  case Nil
  show ?case by simp
next
  case (Cons x xs)
  then show ?case using scanCell_visited [OF assms(1,2) _ assms(4), of x comps] by simp
qed

lemma scan_rows_visited:
  assumes "length v = env_sW env * env_sH env" "\<And>c. inGrid env c \<Longrightarrow> vis env v c"
    "\<forall>x\<in>set xs. x < env_sW env" "\<forall>y\<in>set ys. y < env_sH env"
  shows "fold (\<lambda>y. fold (scanCell env y) xs) ys (v, comps) = (v, comps)"
  using assms(4)
proof (induction ys)
  case Nil
  show ?case by simp
next
  case (Cons y ys)
  then show ?case using scan_row_visited [OF assms(1,2,3), of y comps] by simp
qed

lemma scanCell_origin_all_paper:
  assumes paper: "allPaper env" and pos: "0 < env_sW env" "0 < env_sH env"
  shows "\<exists>v. scanCell env 0 0 (replicate (env_sW env * env_sH env) 0, []) = (v, [])
             \<and> length v = env_sW env * env_sH env \<and> (\<forall>c. inGrid env c \<longrightarrow> vis env v c)"
proof -
  let ?n = "env_sW env * env_sH env"
  let ?v0 = "(replicate ?n (0::nat))[nat (idx env 0 0) := 1]"
  have g0: "inGrid env (0, 0)" using pos by (simp add: inGrid_def)
  have i0: "idx env 0 0 = 0" by (simp add: idx_def)
  have npos: "0 < ?n" using pos by simp
  have nv: "\<not> isVisited env (replicate ?n 0) 0 0"
    using npos by (simp add: isVisited_def readAt_def i0)
  have w: "readAt (env_data env) (originalIdx env 0 0) = Some 1"
    using paper g0 by (auto simp: allPaper_def)
  have inv0: "floodInv env ?v0 [(0, 0)] (0, 0, 0, 0)"
    unfolding floodInv_def
  proof (intro conjI allI impI)
    show "length ?v0 = ?n" by simp
  next
    fix c assume c: "inGrid env c" "vis env ?v0 c"
    from idx_range [OF c(1)] have r: "0 \<le> idx env (fst c) (snd c)"
      "nat (idx env (fst c) (snd c)) < ?n"
      by (simp_all add: nat_less_iff del: of_nat_mult)
    have "nat (idx env (fst c) (snd c)) = 0"
    proof (rule ccontr)
      assume "nat (idx env (fst c) (snd c)) \<noteq> 0"
      then have "?v0 ! nat (idx env (fst c) (snd c)) = 0" using r by (simp add: i0)
      with c(2) show False by (simp add: vis_def)
    qed
    with r have "idx env (fst c) (snd c) = idx env (fst (0::int, 0::int)) (snd (0::int, 0::int))"
      by (simp add: i0)
    from idx_inj [OF c(1) g0 this]
    show "c \<in> set [(0, 0)] \<or> settled env ?v0 (0, 0, 0, 0) c" by simp
  qed
  obtain v box where ff: "floodFill env ?v0 [(0, 0)] (0, 0, 0, 0) = (v, box)"
    by (cases "floodFill env ?v0 [(0, 0)] (0, 0, 0, 0)")
  obtain minX maxX minY maxY where box: "box = (minX, maxX, minY, maxY)" by (cases box) auto
  from floodFill_settles [OF paper inv0] ff
  have fin: "floodInv env v [] box"
    and mono: "\<And>c. inGrid env c \<Longrightarrow> vis env ?v0 c \<Longrightarrow> vis env v c" by auto
  have len: "length v = ?n" using fin by (simp add: floodInv_def)
  have "vis env ?v0 (0, 0)" using npos by (simp add: vis_def i0)
  from mono [OF g0 this] have s0: "vis env v (0, 0)" .
  have fin': "\<forall>c. inGrid env c \<longrightarrow> vis env v c \<longrightarrow> settled env v box c"
    using fin by (auto simp: floodInv_def)
  note cl = settled_closure [of env v box, OF fin' g0 s0]
  have all: "\<forall>c. inGrid env c \<longrightarrow> vis env v c" using cl by simp
  have gl: "inGrid env (int (env_sW env) - 1, 0)" using pos by (simp add: inGrid_def)
  from cl [OF g0] cl [OF gl] box have "minX \<le> 0" "int (env_sW env) - 1 \<le> maxX"
    by (auto simp: covered_def)
  then have big: "int (env_sW env) \<le> maxX - minX + 1" by simp
  have "\<not> (of_int (maxX - minX + 1) < of_nat (env_sW env) * (25 / 100 :: rat))"
  proof -
    have "(of_nat (env_sW env) :: rat) \<le> of_int (maxX - minX + 1)"
      using big by (metis of_int_le_iff of_int_of_nat_eq)
    moreover have "of_nat (env_sW env) * (25 / 100 :: rat) \<le> of_nat (env_sW env)"
      by simp
    ultimately show ?thesis by linarith
  qed
  then have "scanCell env 0 0 (replicate ?n 0, []) = (v, [])"
    using nv w ff box by (simp add: scanCell_def Let_def i0 del: of_int_add of_int_diff)
  with len all show ?thesis by blast
qed


lemma scaled_width: "0 < width \<Longrightarrow> nat \<lfloor>(of_nat width :: rat) * (300 / of_nat width)\<rfloor> = 300"
  by simp

lemma original_in_range:
  fixes width height :: nat and x y :: int
  assumes w: "0 < width"
    and x: "0 \<le> x" "x < 300"
    and y: "0 \<le> y" "y < int (nat \<lfloor>(of_nat height :: rat) * (300 / of_nat width)\<rfloor>)"
  shows "0 \<le> \<lfloor>(of_int y :: rat) / (300 / of_nat width)\<rfloor> * int width
              + \<lfloor>(of_int x :: rat) / (300 / of_nat width)\<rfloor>
         \<and> \<lfloor>(of_int y :: rat) / (300 / of_nat width)\<rfloor> * int width
              + \<lfloor>(of_int x :: rat) / (300 / of_nat width)\<rfloor> < int (width * height)"
proof -
  let ?W = "of_nat width :: rat"
  let ?H = "of_nat height :: rat"
  let ?ox = "\<lfloor>(of_int x :: rat) / (300 / ?W)\<rfloor>"
  let ?oy = "\<lfloor>(of_int y :: rat) / (300 / ?W)\<rfloor>"
  have Wpos: "0 < ?W" using w by simp
  have ex: "(of_int x :: rat) / (300 / ?W) = of_int x * ?W / 300" by simp
  have ey: "(of_int y :: rat) / (300 / ?W) = of_int y * ?W / 300" by simp
  have ox0: "0 \<le> ?ox" using x Wpos by (simp add: ex)
  have oy0: "0 \<le> ?oy" using y Wpos by (simp add: ey)
  have "(of_int x :: rat) * ?W / 300 < ?W"
  proof -
    have "(of_int x :: rat) < 300" using x by simp
    then have "(of_int x :: rat) * ?W < 300 * ?W" using Wpos by simp
    then show ?thesis by simp
  qed
  then have oxw: "?ox < int width" by (simp add: ex floor_less_iff)
  have "(of_int y :: rat) + 1 \<le> ?H * (300 / ?W)"
  proof -
    from y have "y + 1 \<le> \<lfloor>?H * (300 / ?W)\<rfloor>" by simp
    then have "(of_int (y + 1) :: rat) \<le> ?H * (300 / ?W)" by (simp only: le_floor_iff)
    then show ?thesis by simp
  qed
  then have "((of_int y :: rat) + 1) * ?W \<le> ?H * 300"
    using Wpos by (simp add: field_simps)
  then have "(of_int y :: rat) * ?W / 300 \<le> ?H - ?W / 300" by (simp add: field_simps)
  also have "\<dots> < ?H" using Wpos by simp
  finally have oyh: "?oy < int height" by (simp add: ey floor_less_iff)
  have "?oy * int width + ?ox < ?oy * int width + int width" using oxw by simp
  also have "\<dots> = (?oy + 1) * int width" by (simp add: algebra_simps)
  also have "\<dots> \<le> int height * int width"
    using oyh by (intro mult_right_mono) auto
  finally have "?oy * int width + ?ox < int (width * height)" by (simp add: mult.commute)
  moreover have "0 \<le> ?oy * int width + ?ox" using ox0 oy0 by simp
  ultimately show ?thesis by simp
qed

lemma findWhiteComponents_all_paper:
  assumes w: "0 < width"
  shows "findWhiteComponents (replicate (width * height) 1) width height = []"
proof -
  define scale :: rat where "scale = 300 / of_nat width"
  define sH where "sH = nat \<lfloor>(of_nat height :: rat) * scale\<rfloor>"
  define env where "env = \<lparr>env_data = replicate (width * height) (1::nat), env_width = width,
    env_scale = scale, env_sW = 300, env_sH = sH\<rparr>"
  have fw: "findWhiteComponents (replicate (width * height) 1) width height
            = snd (fold (\<lambda>y. fold (scanCell env y) [0..<300]) [0..<sH] (replicate (300 * sH) 0, []))"
    using scaled_width [OF w]
    by (simp add: findWhiteComponents_def Let_def env_def sH_def scale_def)
  have paper: "allPaper env"
    unfolding allPaper_def
  proof (intro allI impI)
    fix c assume "inGrid env c"
    then have r: "0 \<le> fst c" "fst c < 300" "0 \<le> snd c"
      "snd c < int (nat \<lfloor>(of_nat height :: rat) * (300 / of_nat width)\<rfloor>)"
      by (simp_all add: inGrid_def env_def sH_def scale_def)
    from original_in_range [OF w r]
    show "readAt (env_data env) (originalIdx env (fst c) (snd c)) = Some 1"
      by (simp add: readAt_def originalIdx_def env_def scale_def Let_def nat_less_iff
          del: of_nat_mult)
  qed
  show ?thesis
  proof (cases "sH = 0")
    case True
    then show ?thesis unfolding fw by simp
  next
    case False
    then have pos: "0 < env_sW env" "0 < env_sH env" by (simp_all add: env_def)
    from scanCell_origin_all_paper [OF paper pos]
    obtain v where v: "scanCell env 0 0 (replicate (300 * sH) 0, []) = (v, [])"
      "length v = env_sW env * env_sH env" "\<And>c. inGrid env c \<Longrightarrow> vis env v c"
      by (auto simp: env_def)
    have rows: "[0..<sH] = 0 # [1..<sH]" using False by (simp add: upt_conv_Cons)
    have cols: "[0..<300] = 0 # [1..<300]" by (simp add: upt_conv_Cons)
    have r0: "fold (scanCell env 0) [0..<300] (replicate (300 * sH) 0, []) = (v, [])"
      unfolding cols using v(1) scan_row_visited [OF v(2,3), of "[1..<300]" 0 "[]"] pos
      by (simp add: env_def)
    have "fold (\<lambda>y. fold (scanCell env y) [0..<300]) [0..<sH] (replicate (300 * sH) 0, [])
          = fold (\<lambda>y. fold (scanCell env y) [0..<300]) [1..<sH] (v, [])"
      by (subst rows) (simp add: r0)
    also have "\<dots> = (v, [])"
      using scan_rows_visited [OF v(2,3), of "[0..<300]" "[1..<sH]" "[]"]
      by (simp add: env_def)
    finally show ?thesis unfolding fw by simp
  qed
qed


lemma createBinaryCanvas_size:
  assumes "createBinaryCanvas img = Inr (ctx, width, height, binaryData)"
  shows "0 < width \<and> length binaryData = width * height"
  using assms by (auto simp: createBinaryCanvas_def Let_def split: if_splits)

lemma all_ones_replicate: "list_all (\<lambda>v. v = (1::nat)) xs \<Longrightarrow> xs = replicate (length xs) 1"
  by (induction xs) auto

text \<open>
  C9.  When the binarization classifies every pixel of the image as paper, the component
  detector returns no component: the flood fill started at the first cell covers the whole
  downsampled grid, and a region as wide as the grid fails the size filter.  The fast
  validation then finds no ticket and reports \<open>isValid = False\<close> and \<open>ticketCount = 0\<close>.
\<close>

theorem all_paper_image_has_no_ticket:
  assumes "createBinaryCanvas img = Inr (ctx, width, height, binaryData)"
    and "list_all (\<lambda>v. v = 1) binaryData"
  shows "findWhiteComponents binaryData width height = []
         \<and> validateTicketImage img
           = Inr \<lparr>isValid = False, message = noTicketMessage, ticketCount = 0\<rparr>"
proof -
  from createBinaryCanvas_size [OF assms(1)]
  have w: "0 < width" and len: "length binaryData = width * height" by auto
  from all_ones_replicate [OF assms(2)] len
  have "binaryData = replicate (width * height) 1" by simp
  with findWhiteComponents_all_paper [OF w, of height]
  have none: "findWhiteComponents binaryData width height = []" by simp
  have "detectTicketsInImage width height binaryData = []"
    by (simp add: detectTicketsInImage_def none ticketsFromComponents_def validRows_def
        flushRows_def)
  with none assms(1) show ?thesis by (simp add: validateTicketImage_def)
qed

theorem all_paper_image_has_no_ticket_witness:
  "createBinaryCanvas whiteImage
     = Inr (\<lparr>cwidth = 2, cheight = 2, cpixels = [white, white, white, white]\<rparr>, 2, 2, [1, 1, 1, 1])
   \<and> list_all (\<lambda>v. v = 1) [1, 1, 1, 1 :: nat]
   \<and> findWhiteComponents [1, 1, 1, 1] 2 2 = []
   \<and> validateTicketImage whiteImage
     = Inr \<lparr>isValid = False, message = noTicketMessage, ticketCount = 0\<rparr>"
proof -
  have c: "createBinaryCanvas whiteImage
     = Inr (\<lparr>cwidth = 2, cheight = 2, cpixels = [white, white, white, white]\<rparr>, 2, 2, [1, 1, 1, 1])"
    by code_simp
  have a: "list_all (\<lambda>v. v = 1) [1, 1, 1, 1 :: nat]" by simp
  from all_paper_image_has_no_ticket [OF c a] c a show ?thesis by simp
qed

section \<open>Chunking rows into tickets\<close>

lemma flushRows_ticket:
  assumes "t \<in> set (flushRows run)"
  shows "length (rows t) = 3 \<and> sublist (rows t) run"
proof -
  from assms obtain k where k: "k < length run div 3"
    and t: "t = \<lparr>rows = slice (k * 3) ((k + 1) * 3) run\<rparr>"
    by (auto simp: flushRows_def)
  have r: "rows t = take 3 (drop (k * 3) run)" by (simp add: t slice_def)
  from k have "k * 3 + 3 \<le> length run" by simp
  then have "length (rows t) = 3" by (simp add: r)
  moreover have "sublist (rows t) run"
    unfolding r by (meson sublist_drop sublist_order.order_trans sublist_take)
  ultimately show ?thesis by simp
qed

lemma flushRows_concat:
  "concat (map rows (flushRows run)) = take (3 * (length run div 3)) run"
proof -
  have "concat (map (\<lambda>k. take 3 (drop (k * 3) run)) [0..<n]) = take (3 * n) run"
    if "3 * n \<le> length run" for n
    using that
  proof (induction n)
    case 0
    show ?case by simp
  next
    case (Suc n)
    then have "concat (map (\<lambda>k. take 3 (drop (k * 3) run)) [0..<n]) = take (3 * n) run" by simp
    moreover have "take (n * 3 + 3) run = take (n * 3) run @ take 3 (drop (n * 3) run)"
      by (rule take_add)
    ultimately show ?case by (simp add: mult.commute add.commute)
  qed
  from this [of "length run div 3"] show ?thesis
    by (simp add: flushRows_def slice_def comp_def)
qed

lemma chunkRows_ticket:
  "t \<in> set (chunkRows rest ticketsRaw current) \<Longrightarrow>
   t \<in> set ticketsRaw \<or> (length (rows t) = 3 \<and> sublist (rows t) (current @ rest))"
proof (induction rest ticketsRaw current rule: chunkRows.induct)
  case (1 ticketsRaw current)
  then show ?case using flushRows_ticket by auto
next
  case (2 row rest ticketsRaw current)
  show ?case
  proof (cases "current = []")
    case True
    with 2 show ?thesis by auto
  next
    case False
    define prev where "prev = last current"
    define dist where "dist = row_y row - (row_y prev + row_h prev)"
    show ?thesis
    proof (cases "dist < row_h row * (2 / 10)")
      case True
      with False "2.prems" have "t \<in> set (chunkRows rest ticketsRaw (current @ [row]))"
        by (simp add: Let_def prev_def dist_def)
      from "2.IH"(2) [OF False prev_def dist_def True this] show ?thesis by simp
    next
      case near: False
      with False "2.prems" have "t \<in> set (chunkRows rest (ticketsRaw @ flushRows current) [row])"
        by (simp add: Let_def prev_def dist_def)
      from "2.IH"(3) [OF False prev_def dist_def near this]
      consider "t \<in> set ticketsRaw" | "t \<in> set (flushRows current)"
        | "length (rows t) = 3 \<and> sublist (rows t) ([row] @ rest)" by auto
      then show ?thesis
      proof cases
        case 1
        then show ?thesis by simp
      next
        case 2
        from flushRows_ticket [OF this] have "length (rows t) = 3" "sublist (rows t) current"
          by auto
        then show ?thesis
          by (meson sublist_append_rightI sublist_order.order_trans)
      next
        case 3
        then have "sublist (rows t) (current @ row # rest)"
          by (metis append_Cons append_Nil sublist_append_leftI sublist_order.order_trans)
        with 3 show ?thesis by simp
      qed
    qed
  qed
qed

lemma splitAtGaps_run:
  "noGap current \<Longrightarrow> current \<noteq> [] \<Longrightarrow> splitAtGaps current = [current]"
  by (induction current rule: noGap.induct) auto

lemma splitAtGaps_cut:
  "noGap current \<Longrightarrow> current \<noteq> [] \<Longrightarrow> gapBefore (last current) row \<Longrightarrow>
   splitAtGaps (current @ row # rest) = current # splitAtGaps (row # rest)"
  by (induction current rule: noGap.induct) auto

lemma noGap_snoc:
  "noGap current \<Longrightarrow> current \<noteq> [] \<Longrightarrow> \<not> gapBefore (last current) row \<Longrightarrow>
   noGap (current @ [row])"
  by (induction current rule: noGap.induct) auto

lemma chunkRows_runs:
  "noGap current \<Longrightarrow> current \<noteq> [] \<Longrightarrow>
   chunkRows rest ticketsRaw current
   = ticketsRaw @ concat (map flushRows (splitAtGaps (current @ rest)))"
proof (induction rest arbitrary: ticketsRaw current)
  case Nil
  then show ?case by (simp add: splitAtGaps_run)
next
  case (Cons row rest)
  show ?case
  proof (cases "gapBefore (last current) row")
    case True
    then have "chunkRows (row # rest) ticketsRaw current
               = chunkRows rest (ticketsRaw @ flushRows current) [row]"
      using Cons.prems by (simp add: gapBefore_def Let_def not_less)
    also have "\<dots> = (ticketsRaw @ flushRows current)
                      @ concat (map flushRows (splitAtGaps ([row] @ rest)))"
      by (rule Cons.IH) simp_all
    finally show ?thesis
      using splitAtGaps_cut [OF Cons.prems True, of rest] by simp
  next
    case False
    then have "chunkRows (row # rest) ticketsRaw current
               = chunkRows rest ticketsRaw (current @ [row])"
      using Cons.prems by (simp add: gapBefore_def Let_def not_le)
    also have "\<dots> = ticketsRaw @ concat (map flushRows (splitAtGaps ((current @ [row]) @ rest)))"
      by (rule Cons.IH) (simp_all add: noGap_snoc [OF Cons.prems False])
    finally show ?thesis by simp
  qed
qed

lemma chunkRows_start:
  "chunkRows rs [] [] = concat (map flushRows (splitAtGaps rs))"
proof (cases rs)
  case Nil
  then show ?thesis by (simp add: flushRows_def)
next
  case (Cons row rest)
  then show ?thesis using chunkRows_runs [of "[row]" rest "[]"] by simp
qed

text \<open>
  C3.  For every list of components, every ticket that the chunking emits has exactly 3
  rows, and these rows stand next to each other in the list of valid rows, which is
  ordered by \<open>y\<close>.  The tickets are those of the runs into which the valid rows are cut at
  every vertical gap of at least 0.2 times the height of the row below the gap: a run is
  emitted three rows by three rows, in order, and the last one or two rows that do not
  fill a group are left out.
\<close>

theorem tickets_are_three_consecutive_rows:
  "(\<forall>t\<in>set (ticketsFromComponents rawComponents).
       length (rows t) = 3 \<and> sublist (rows t) (validRows rawComponents))
   \<and> sorted (map row_y (validRows rawComponents))
   \<and> ticketsFromComponents rawComponents
     = concat (map flushRows (splitAtGaps (validRows rawComponents)))
   \<and> concat (map rows (flushRows run)) = take (3 * (length run div 3)) run"
proof (intro conjI ballI)
  fix t assume "t \<in> set (ticketsFromComponents rawComponents)"
  from chunkRows_ticket [OF this [unfolded ticketsFromComponents_def]]
  show "length (rows t) = 3" "sublist (rows t) (validRows rawComponents)" by simp_all
next
  show "sorted (map row_y (validRows rawComponents))"
    by (simp add: validRows_def Let_def)
next
  show "ticketsFromComponents rawComponents
        = concat (map flushRows (splitAtGaps (validRows rawComponents)))"
    unfolding ticketsFromComponents_def by (rule chunkRows_start)
next
  show "concat (map rows (flushRows run)) = take (3 * (length run div 3)) run"
    by (rule flushRows_concat)
qed

text \<open>
  Seven squares below each other with one gap: the rows form a run of three and a run of
  four, which give one ticket each.
\<close>

theorem tickets_are_three_consecutive_rows_witness:
  "ticketsFromComponents sevenComponents
     = [\<lparr>rows = take 3 (validRows sevenComponents)\<rparr>,
        \<lparr>rows = take 3 (drop 3 (validRows sevenComponents))\<rparr>]
   \<and> splitAtGaps (validRows sevenComponents)
     = [take 3 (validRows sevenComponents), drop 3 (validRows sevenComponents)]
   \<and> length (validRows sevenComponents) = 7
   \<and> length (take 3 (drop 3 (validRows sevenComponents))) = 3
   \<and> sublist (take 3 (drop 3 (validRows sevenComponents))) (validRows sevenComponents)"
proof -
  have e: "ticketsFromComponents sevenComponents
     = [\<lparr>rows = take 3 (validRows sevenComponents)\<rparr>,
        \<lparr>rows = take 3 (drop 3 (validRows sevenComponents))\<rparr>]"
    by code_simp
  have s: "splitAtGaps (validRows sevenComponents)
     = [take 3 (validRows sevenComponents), drop 3 (validRows sevenComponents)]"
    by code_simp
  have n: "length (validRows sevenComponents) = 7" by code_simp
  have m: "\<lparr>rows = take 3 (drop 3 (validRows sevenComponents))\<rparr>
           \<in> set (ticketsFromComponents sevenComponents)"
    by (simp add: e)
  from tickets_are_three_consecutive_rows [of sevenComponents "[]", THEN conjunct1, rule_format, OF m]
  have "length (take 3 (drop 3 (validRows sevenComponents))) = 3"
    "sublist (take 3 (drop 3 (validRows sevenComponents))) (validRows sevenComponents)"
    by simp_all
  with e s n show ?thesis by simp
qed
section \<open>Column interpolation\<close>

lemma extendColumns_full:
  "length columnsX = 6 \<Longrightarrow> extendColumns avgW columnsX = columnsX"
  by (simp add: extendColumns.simps)

lemma extendColumns_steps:
  "0 < length columnsX \<Longrightarrow> length columnsX \<le> 6 \<Longrightarrow>
   extendColumns avgW columnsX
   = columnsX @ map (\<lambda>k. last columnsX + of_nat k * (avgW * (105 / 100)))
                    [1..<7 - length columnsX]"
proof (induction avgW columnsX rule: extendColumns.induct)
  case (1 avgW columnsX)
  show ?case
  proof (cases "length columnsX < 6")
    case False
    with "1.prems" have "length columnsX = 6" by simp
    then show ?thesis by (simp add: extendColumns_full)
  next
    case True
    let ?d = "avgW * (105 / 100)"
    let ?cs = "columnsX @ [last columnsX + ?d]"
    have c: "length columnsX < 6 \<and> 0 < length columnsX" using True "1.prems" by simp
    have "extendColumns avgW columnsX = extendColumns avgW ?cs"
      using c by (subst extendColumns.simps) simp
    also have "\<dots> = ?cs @ map (\<lambda>k. last ?cs + of_nat k * ?d) [1..<7 - length ?cs]"
      using "1.IH" [OF c] True by simp
    also have "map (\<lambda>k. last ?cs + of_nat k * ?d) [1..<7 - length ?cs]
               = map (\<lambda>k. last columnsX + of_nat k * ?d) [2..<7 - length columnsX]"
    proof -
      have s: "7 - length columnsX = Suc (6 - length columnsX)" using True by simp
      have "[2..<7 - length columnsX] = map Suc [1..<7 - length ?cs]"
        unfolding s by (simp add: map_Suc_upt numeral_2_eq_2 del: upt_Suc)
      then show ?thesis by (simp add: comp_def algebra_simps)
    qed
    also have "?cs @ map (\<lambda>k. last columnsX + of_nat k * ?d) [2..<7 - length columnsX]
               = columnsX @ map (\<lambda>k. last columnsX + of_nat k * ?d) [1..<7 - length columnsX]"
    proof -
      have "[1..<7 - length columnsX] = 1 # [2..<7 - length columnsX]"
        using True by (simp add: upt_conv_Cons numeral_2_eq_2)
      then show ?thesis by simp
    qed
    finally show ?thesis .
  qed
qed

text \<open>
  C4, as the code has it.  For every list of rows the interpolation returns one row for
  each input row, with exactly 6 cells.  When the clustering finds between 1 and 5 columns,
  the list of columns is extended to exactly 6 entries, each new entry 1.05 times the
  average width to the right of the last one.  (That a second run reproduces the first is
  not part of the statement.)
\<close>

theorem interpolateGrid_six_cells:
  "length (interpolateGrid rs) = length rs
   \<and> (\<forall>g\<in>set (interpolateGrid rs). length (grid_cells g) = 6)
   \<and> (0 < length columnsX \<and> length columnsX < 6 \<longrightarrow>
        length (extendColumns avgW columnsX) = 6
        \<and> extendColumns avgW columnsX
          = columnsX @ map (\<lambda>k. last columnsX + of_nat k * (avgW * (105 / 100)))
                           [1..<7 - length columnsX])"
proof (intro conjI ballI impI)
  show "length (interpolateGrid rs) = length rs"
    by (simp add: interpolateGrid_def Let_def)
next
  fix g assume "g \<in> set (interpolateGrid rs)"
  then show "length (grid_cells g) = 6"
    by (auto simp: interpolateGrid_def Let_def)
next
  assume a: "0 < length columnsX \<and> length columnsX < 6"
  then show e: "extendColumns avgW columnsX
          = columnsX @ map (\<lambda>k. last columnsX + of_nat k * (avgW * (105 / 100)))
                           [1..<7 - length columnsX]"
    by (intro extendColumns_steps) auto
  from a show "length (extendColumns avgW columnsX) = 6" unfolding e by simp
qed

theorem interpolateGrid_six_cells_witness:
  "length (interpolateGrid skewedRows) = 3
   \<and> hd (interpolateGrid skewedRows) \<in> set (interpolateGrid skewedRows)
   \<and> length (grid_cells (hd (interpolateGrid skewedRows))) = 6
   \<and> 0 < length [0 :: rat] \<and> length [0 :: rat] < 6
   \<and> extendColumns 10 [0] = [0, 21 / 2, 21, 63 / 2, 42, 105 / 2]"
proof -
  note t = interpolateGrid_six_cells [of skewedRows "[0]" 10]
  from t have l: "length (interpolateGrid skewedRows) = 3" by (simp add: skewedRows_def)
  then have m: "hd (interpolateGrid skewedRows) \<in> set (interpolateGrid skewedRows)"
    by (cases "interpolateGrid skewedRows") auto
  from t m have c: "length (grid_cells (hd (interpolateGrid skewedRows))) = 6" by blast
  have "[1..<7 - length [0 :: rat]] = [1, 2, 3, 4, 5]" by code_simp
  with t have e: "extendColumns 10 [0] = [0, 21 / 2, 21, 63 / 2, 42, 105 / 2]" by simp
  from l m c e show ?thesis by simp
qed

text \<open>
  C4, as the specification states it, fails in its second half.  The three squares of
  \<open>skewedComponents\<close> are detected as one ticket with one cell in each row.  The first run
  places its columns at 6, 13, 24.9, 36.8, 48.7 and 60.6; the second run, on the output of
  the first, clusters the cells at 4, 6, 8 and 13 into one column and so gets columns at
  26/3, 24, 36, 48, 60 and 215/3: the rows of the second run differ from those of the
  first.
\<close>

theorem interpolateGrid_is_not_idempotent:
  "ticketsFromComponents skewedComponents = [\<lparr>rows = skewedRows\<rparr>]
   \<and> map (map rx \<circ> grid_cells) (interpolateGrid skewedRows)
     = [[4, 13, 24, 36, 48, 60], [8, 8, 24, 36, 48, 60], [6, 13, 24, 36, 48, 60]]
   \<and> map (map rx \<circ> grid_cells) (interpolateGrid (asRows (interpolateGrid skewedRows)))
     = [[4, 24, 36, 48, 60, 71], [8, 24, 36, 48, 60, 71], [6, 24, 36, 48, 60, 71]]
   \<and> interpolateGrid (asRows (interpolateGrid skewedRows)) \<noteq> interpolateGrid skewedRows"
proof -
  have a: "ticketsFromComponents skewedComponents = [\<lparr>rows = skewedRows\<rparr>]" by code_simp
  have b: "map (map rx \<circ> grid_cells) (interpolateGrid skewedRows)
     = [[4, 13, 24, 36, 48, 60], [8, 8, 24, 36, 48, 60], [6, 13, 24, 36, 48, 60]]" by code_simp
  have c: "map (map rx \<circ> grid_cells) (interpolateGrid (asRows (interpolateGrid skewedRows)))
     = [[4, 24, 36, 48, 60, 71], [8, 24, 36, 48, 60, 71], [6, 24, 36, 48, 60, 71]]" by code_simp
  have d: "interpolateGrid (asRows (interpolateGrid skewedRows)) \<noteq> interpolateGrid skewedRows"
  proof
    assume "interpolateGrid (asRows (interpolateGrid skewedRows)) = interpolateGrid skewedRows"
    then have "map (map rx \<circ> grid_cells) (interpolateGrid (asRows (interpolateGrid skewedRows)))
               = map (map rx \<circ> grid_cells) (interpolateGrid skewedRows)"
      by (rule arg_cong)
    then have "[[4, 24, 36, 48, 60, 71], [8, 24, 36, 48, 60, 71], [6, 24, 36, 48, 60, 71]]
               = [[4, 13, 24, 36, 48, 60], [8, 8, 24, 36, 48, 60], [6, 13, 24, 36, 48, 60 :: rat]]"
      by (simp only: b c)
    then show False by simp
  qed
  from a b c d show ?thesis by (intro conjI)
qed

section \<open>The sprite map\<close>

lemma collect_Inr:
  "collect steps = Inr xs \<Longrightarrow> \<exists>yss. steps = map Inr yss \<and> xs = concat yss"
proof (induction steps arbitrary: xs)
  case Nil
  then show ?case by simp
next
  case (Cons step steps)
  from Cons.prems obtain ys zs where s: "step = Inr ys" "collect steps = Inr zs" "xs = ys @ zs"
    by (auto split: sum.splits)
  from Cons.IH [OF s(2)] obtain yss where y: "steps = map Inr yss" "zs = concat yss" by blast
  show ?case
    by (rule exI [of _ "ys # yss"]) (simp add: s y)
qed

lemma sorted_concat_ranked:
  assumes "list_all2 (\<lambda>p ys. sorted_wrt (\<lambda>a b. rank a < rank b) ys
                              \<and> (\<forall>m\<in>set ys. lo p \<le> rank m \<and> rank m < hi p)) ps yss"
    and "sorted_wrt (\<lambda>p q. hi p \<le> lo q) ps"
  shows "sorted_wrt (\<lambda>a b. rank a < rank b) (concat yss)
         \<and> (\<forall>m\<in>set (concat yss). \<exists>q\<in>set ps. lo q \<le> rank m \<and> rank m < hi q)"
  using assms
proof (induction ps yss rule: list_all2_induct)
  case Nil
  then show ?case by simp
next
  case (Cons p ps ys yss)
  from Cons have ih: "sorted_wrt (\<lambda>a b. rank a < rank b) (concat yss)"
    "\<forall>m\<in>set (concat yss). \<exists>q\<in>set ps. lo q \<le> rank m \<and> rank m < hi q" by simp_all
  have later: "rank a < rank b" if "a \<in> set ys" "b \<in> set (concat yss)" for a b
  proof -
    from ih(2) that(2) obtain q where q: "q \<in> set ps" "lo q \<le> rank b" by blast
    from Cons.prems q(1) have "hi p \<le> lo q" by auto
    moreover from Cons.hyps(1) that(1) have "rank a < hi p" by auto
    ultimately show ?thesis using q(2) by simp
  qed
  from Cons.hyps(1) ih(1) later have "sorted_wrt (\<lambda>a b. rank a < rank b) (concat (ys # yss))"
    by (auto simp: sorted_wrt_append)
  moreover have "\<forall>m\<in>set (concat (ys # yss)). \<exists>q\<in>set (p # ps). lo q \<le> rank m \<and> rank m < hi q"
    using Cons.hyps(1) ih(2) by auto
  ultimately show ?case by blast
qed


lemma collect_map:
  "collect (map f ps) = Inr ms \<Longrightarrow>
   \<exists>yss. list_all2 (\<lambda>p ys. f p = Inr ys) ps yss \<and> ms = concat yss"
proof (induction ps arbitrary: ms)
  case Nil
  then show ?case by simp
next
  case (Cons p ps)
  from Cons.prems obtain ys zs where s: "f p = Inr ys" "collect (map f ps) = Inr zs" "ms = ys @ zs"
    by (auto split: sum.splits)
  from Cons.IH [OF s(2)] obtain yss where y: "list_all2 (\<lambda>p ys. f p = Inr ys) ps yss" "zs = concat yss"
    by blast
  show ?case
    by (rule exI [of _ "ys # yss"]) (simp add: s y)
qed

lemma collect_map_snoc:
  "collect (map f ps @ [Inr z]) = Inr ms \<Longrightarrow>
   \<exists>yss. list_all2 (\<lambda>p ys. f p = Inr ys) ps yss \<and> ms = concat yss @ z"
proof (induction ps arbitrary: ms)
  case Nil
  then show ?case by simp
next
  case (Cons p ps)
  from Cons.prems obtain ys zs where s: "f p = Inr ys" "collect (map f ps @ [Inr z]) = Inr zs"
    "ms = ys @ zs"
    by (auto split: sum.splits)
  from Cons.IH [OF s(2)] obtain yss where y: "list_all2 (\<lambda>p ys. f p = Inr ys) ps yss"
    "zs = concat yss @ z"
    by blast
  show ?case
    by (rule exI [of _ "ys # yss"]) (simp add: s y)
qed

lemma numberMappings_concat:
  "numberMappings (concat yss) = concat (map numberMappings yss)"
  by (induction yss) (auto simp: numberMappings_def)

lemma numberMappings_append:
  "numberMappings (xs @ ys) = numberMappings xs @ numberMappings ys"
  by (simp add: numberMappings_def)

lemma numberCell_result:
  assumes "numberCell ctx t r c cell = Inr ms" "r < 3" "c < 6"
  shows "numberMappings ms = ms \<and> sorted_wrt (\<lambda>a b. rank a < rank b) ms
         \<and> (\<forall>m\<in>set ms. wellPlaced m \<and> rank m = t * 18 + r * 6 + c)"
proof -
  from assms(1) consider "ms = []"
    | "ms = [\<lparr>ticketIndex = t, rowIndex = r, colIndex = c, spriteRect = numberSprite t r c,
              originalRect = cell, cellType = Number\<rparr>]"
    by (auto simp: numberCell_def Let_def split: sum.splits bool.splits)
  then show ?thesis
  proof cases
    case 1
    then show ?thesis by (simp add: numberMappings_def)
  next
    case 2
    then show ?thesis using assms(2,3)
      by (simp add: numberMappings_def wellPlaced_def rank_def)
  qed
qed

lemma idCell_numbers: "numberMappings (idCell ctx t cell) = []"
  by (simp add: idCell_def Let_def numberMappings_def)

lemma cell_order:
  "sorted_wrt (\<lambda>p q. fst p * 6 + snd p < fst q * 6 + snd q) cellPositions"
  by code_simp

lemma cell_bounds: "p \<in> set cellPositions \<Longrightarrow> fst p < 3 \<and> snd p < 6"
  by (auto simp: cellPositions_def)

lemma ticketCells_numbers:
  assumes "ticketCells ctx t ticket = Inr ms"
  shows "sorted_wrt (\<lambda>a b. rank a < rank b) (numberMappings ms)
         \<and> (\<forall>m\<in>set (numberMappings ms). wellPlaced m \<and> t * 18 \<le> rank m \<and> rank m < t * 18 + 18)"
proof -
  define g where "g = interpolateGrid (rows ticket)"
  define f where "f = (\<lambda>(r, c). numberCell ctx t r c (grid_cells (g ! r) ! c))"
  define idc where "idc = idCell ctx t (grid_cells (g ! 2) ! 5)"
  from assms have c: "collect (map f cellPositions @ [Inr idc]) = Inr ms"
    by (simp add: ticketCells_def Let_def f_def idc_def g_def cellPositions_def split: if_splits)
  from collect_map_snoc [OF c] obtain yss where
    la: "list_all2 (\<lambda>p ys. f p = Inr ys) cellPositions yss" and ms: "ms = concat yss @ idc"
    by blast
  have nm: "numberMappings ms = concat (map numberMappings yss)"
    by (simp add: ms numberMappings_append numberMappings_concat idCell_numbers idc_def)
  let ?lo = "\<lambda>p :: nat \<times> nat. t * 18 + fst p * 6 + snd p"
  let ?hi = "\<lambda>p :: nat \<times> nat. t * 18 + fst p * 6 + snd p + 1"
  have each: "numberMappings ys = ys \<and> sorted_wrt (\<lambda>a b. rank a < rank b) ys
              \<and> (\<forall>m\<in>set ys. wellPlaced m \<and> rank m = ?lo p)"
    if "p \<in> set cellPositions" "f p = Inr ys" for p ys
    using numberCell_result [of ctx t "fst p" "snd p" _ ys] cell_bounds [OF that(1)] that(2)
    by (simp add: f_def case_prod_beta)
  have la2: "list_all2 (\<lambda>p ys. sorted_wrt (\<lambda>a b. rank a < rank b) ys
               \<and> (\<forall>m\<in>set ys. ?lo p \<le> rank m \<and> rank m < ?hi p)) cellPositions (map numberMappings yss)"
  proof -
    have "sorted_wrt (\<lambda>a b. rank a < rank b) (numberMappings (yss ! i))
          \<and> (\<forall>m\<in>set (numberMappings (yss ! i)).
                ?lo (cellPositions ! i) \<le> rank m \<and> rank m < ?hi (cellPositions ! i))"
      if i: "i < length cellPositions" for i
    proof -
      from i have "f (cellPositions ! i) = Inr (yss ! i)"
        using la by (simp add: list_all2_conv_all_nth)
      with each [of "cellPositions ! i" "yss ! i"] i show ?thesis by simp
    qed
    moreover have "length cellPositions = length yss"
      using la by (simp add: list_all2_conv_all_nth)
    ultimately show ?thesis by (simp add: list_all2_conv_all_nth)
  qed
  have so: "sorted_wrt (\<lambda>p q. ?hi p \<le> ?lo q) cellPositions"
    by (rule sorted_wrt_mono_rel [OF _ cell_order]) simp
  from sorted_concat_ranked [OF la2 so]
  have s: "sorted_wrt (\<lambda>a b. rank a < rank b) (numberMappings ms)" by (simp add: nm)
  have "wellPlaced m \<and> t * 18 \<le> rank m \<and> rank m < t * 18 + 18" if "m \<in> set (numberMappings ms)" for m
  proof -
    from that obtain ys where ys: "ys \<in> set yss" "m \<in> set (numberMappings ys)"
      by (auto simp: nm)
    from ys(1) obtain i where i: "i < length yss" "ys = yss ! i"
      by (auto simp: in_set_conv_nth)
    from la i have p: "cellPositions ! i \<in> set cellPositions" "f (cellPositions ! i) = Inr ys"
      by (simp_all add: list_all2_conv_all_nth)
    from each [OF p] ys(2) have "wellPlaced m" "rank m = ?lo (cellPositions ! i)" by auto
    with cell_bounds [OF p(1)] show ?thesis by simp
  qed
  with s show ?thesis by blast
qed


lemma zip_upt_order:
  "sorted_wrt (\<lambda>p q. fst p * 18 + 18 \<le> fst q * (18::nat)) (zip [0..<n] xs)"
proof -
  have "sorted_wrt (<) (map fst (zip [0..<n] xs))"
    by (simp add: map_fst_zip_take sorted_wrt_take)
  then have "sorted_wrt (\<lambda>p q. fst p < fst q) (zip [0..<n] xs)"
    by (simp add: sorted_wrt_map)
  then show ?thesis
    by (rule sorted_wrt_mono_rel [rotated]) simp
qed

lemma generateCompositeCanvas_numbers:
  assumes "generateCompositeCanvas ctx tickets = Inr cellMap"
  shows "sorted_wrt (\<lambda>a b. rank a < rank b) (numberMappings cellMap)
         \<and> (\<forall>m\<in>set (numberMappings cellMap). wellPlaced m)"
proof -
  define zs where "zs = zip [0..<length tickets] tickets"
  define f where "f = (\<lambda>(tIdx, ticket). ticketCells ctx tIdx ticket)"
  from assms have c: "collect (map f zs) = Inr cellMap"
    by (simp add: generateCompositeCanvas_def f_def zs_def split: if_splits)
  from collect_map [OF c] obtain yss where
    la: "list_all2 (\<lambda>p ys. f p = Inr ys) zs yss" and cm: "cellMap = concat yss"
    by blast
  have nm: "numberMappings cellMap = concat (map numberMappings yss)"
    by (simp add: cm numberMappings_concat)
  let ?lo = "\<lambda>p :: nat \<times> Ticket. fst p * 18"
  let ?hi = "\<lambda>p :: nat \<times> Ticket. fst p * 18 + 18"
  have each: "sorted_wrt (\<lambda>a b. rank a < rank b) (numberMappings (yss ! i))
              \<and> (\<forall>m\<in>set (numberMappings (yss ! i)).
                    wellPlaced m \<and> ?lo (zs ! i) \<le> rank m \<and> rank m < ?hi (zs ! i))"
    if i: "i < length zs" for i
  proof -
    from i la have "f (zs ! i) = Inr (yss ! i)" by (simp add: list_all2_conv_all_nth)
    then have "ticketCells ctx (fst (zs ! i)) (snd (zs ! i)) = Inr (yss ! i)"
      by (simp add: f_def case_prod_beta)
    from ticketCells_numbers [OF this] show ?thesis by simp
  qed
  have len: "length zs = length yss" using la by (simp add: list_all2_conv_all_nth)
  have la2: "list_all2 (\<lambda>p ys. sorted_wrt (\<lambda>a b. rank a < rank b) ys
               \<and> (\<forall>m\<in>set ys. ?lo p \<le> rank m \<and> rank m < ?hi p)) zs (map numberMappings yss)"
    using each len by (simp add: list_all2_conv_all_nth)
  have so: "sorted_wrt (\<lambda>p q. ?hi p \<le> ?lo q) zs"
    unfolding zs_def by (rule zip_upt_order)
  from sorted_concat_ranked [OF la2 so]
  have s: "sorted_wrt (\<lambda>a b. rank a < rank b) (numberMappings cellMap)" by (simp add: nm)
  have "wellPlaced m" if "m \<in> set (numberMappings cellMap)" for m
  proof -
    from that obtain ys where ys: "ys \<in> set yss" "m \<in> set (numberMappings ys)"
      by (auto simp: nm)
    from ys(1) obtain i where i: "i < length yss" "ys = yss ! i"
      by (auto simp: in_set_conv_nth)
    with each [of i] len ys(2) show ?thesis by simp
  qed
  with s show ?thesis by blast
qed

lemma numberSprite_disjoint:
  assumes "r < 3" "c < 6" "r' < 3" "c' < 6"
    and "t * 18 + r * 6 + c < t' * 18 + r' * 6 + c'"
  shows "disjointRects (numberSprite t r c) (numberSprite t' r' c')"
proof -
  have x: "rx (numberSprite t r c) = of_nat (400 + c * 560)" "rw (numberSprite t r c) = 160"
    "ry (numberSprite t r c) = of_nat (t * 2080 + 400 + r * 560)" "rh (numberSprite t r c) = 160"
    "rx (numberSprite t' r' c') = of_nat (400 + c' * 560)" "rw (numberSprite t' r' c') = 160"
    "ry (numberSprite t' r' c') = of_nat (t' * 2080 + 400 + r' * 560)"
    "rh (numberSprite t' r' c') = 160"
    by (simp_all add: numberSprite_def Let_def cellSize_def padding_def ticketHeight_def)
  consider "c < c'" | "c' < c" | "c = c'" "t = t'" "r < r'" | "c = c'" "t < t'" | "c' = c" "t' < t"
    | "c = c'" "t = t'" "r' < r" | "c = c'" "t = t'" "r = r'"
    by linarith
  then show ?thesis
  proof cases
    case 1
    then have "400 + c * 560 + 160 \<le> 400 + c' * 560" by simp
    then have "(of_nat (400 + c * 560) :: rat) + 160 \<le> of_nat (400 + c' * 560)"
      by (metis of_nat_add of_nat_le_iff of_nat_numeral)
    then show ?thesis by (simp only: disjointRects_def x) simp
  next
    case 2
    then have "400 + c' * 560 + 160 \<le> 400 + c * 560" by simp
    then have "(of_nat (400 + c' * 560) :: rat) + 160 \<le> of_nat (400 + c * 560)"
      by (metis of_nat_add of_nat_le_iff of_nat_numeral)
    then show ?thesis by (simp only: disjointRects_def x) simp
  next
    case 3
    then have "t * 2080 + 400 + r * 560 + 160 \<le> t' * 2080 + 400 + r' * 560" by simp
    then have "(of_nat (t * 2080 + 400 + r * 560) :: rat) + 160 \<le> of_nat (t' * 2080 + 400 + r' * 560)"
      by (metis of_nat_add of_nat_le_iff of_nat_numeral)
    then show ?thesis by (simp only: disjointRects_def x) simp
  next
    case 4
    then have "t * 2080 + 400 + r * 560 + 160 \<le> t' * 2080 + 400 + r' * 560" using assms by simp
    then have "(of_nat (t * 2080 + 400 + r * 560) :: rat) + 160 \<le> of_nat (t' * 2080 + 400 + r' * 560)"
      by (metis of_nat_add of_nat_le_iff of_nat_numeral)
    then show ?thesis by (simp only: disjointRects_def x) simp
  next
    case 5
    with assms show ?thesis by simp
  next
    case 6
    with assms show ?thesis by simp
  next
    case 7
    with assms show ?thesis by simp
  qed
qed

lemma centerInside_both:
  "centerInside a w \<Longrightarrow> centerInside b w \<Longrightarrow> \<not> disjointRects a b"
  by (auto simp: centerInside_def disjointRects_def Let_def)

lemma at_most_one:
  "sorted_wrt D xs \<Longrightarrow> (\<And>a b. D a b \<Longrightarrow> \<not> (P a \<and> P b)) \<Longrightarrow> length (filter P xs) \<le> 1"
proof (induction xs)
  case Nil
  show ?case by simp
next
  case (Cons x xs)
  show ?case
  proof (cases "P x")
    case True
    have "filter P xs = []"
    proof (rule filter_False, rule ballI)
      fix y assume "y \<in> set xs"
      with Cons.prems(1) have "D x y" by simp
      with Cons.prems(2) True show "\<not> P y" by blast
    qed
    with True show ?thesis by simp
  next
    case False
    with Cons show ?thesis by simp
  qed
qed

text \<open>
  C10.  In the map of every composite sheet the mappings of type number come in the order
  ticket, row, column, each cell at most once, and the sprite of cell \<open>(r, c)\<close> of ticket
  \<open>t\<close> is the square of 160 pixels at \<open>(400 + 560 c, 2080 t + 400 + 560 r)\<close>.  So the
  sprites of two different number mappings are disjoint, and for every recognized word
  at most one number mapping has the center of the word inside its sprite: a word is a
  candidate for at most one cell.
\<close>

theorem number_sprites_are_disjoint:
  assumes "generateCompositeCanvas binaryCtx tickets = Inr cellMap"
  shows "(\<forall>i j. i < j \<and> j < length (numberMappings cellMap) \<longrightarrow>
            disjointRects (spriteRect (numberMappings cellMap ! i))
                          (spriteRect (numberMappings cellMap ! j)))
         \<and> (\<forall>w. length (filter (\<lambda>m. centerInside (spriteRect m) w) (numberMappings cellMap)) \<le> 1)"
proof -
  let ?ns = "numberMappings cellMap"
  from generateCompositeCanvas_numbers [OF assms]
  have s: "sorted_wrt (\<lambda>a b. rank a < rank b) ?ns" and w: "\<And>m. m \<in> set ?ns \<Longrightarrow> wellPlaced m"
    by auto
  have d: "disjointRects (spriteRect a) (spriteRect b)"
    if "a \<in> set ?ns" "b \<in> set ?ns" "rank a < rank b" for a b
    using numberSprite_disjoint [of "rowIndex a" "colIndex a" "rowIndex b" "colIndex b"
        "ticketIndex a" "ticketIndex b"] w [OF that(1)] w [OF that(2)] that(3)
    by (simp add: wellPlaced_def rank_def)
  have sd: "sorted_wrt (\<lambda>a b. disjointRects (spriteRect a) (spriteRect b)) ?ns"
    by (rule sorted_wrt_mono_rel [OF _ s]) (use d in blast)
  have one: "\<forall>i j. i < j \<and> j < length ?ns \<longrightarrow>
            disjointRects (spriteRect (?ns ! i)) (spriteRect (?ns ! j))"
    using sd by (auto simp: sorted_wrt_iff_nth_less)
  have two: "length (filter (\<lambda>m. centerInside (spriteRect m) w) ?ns) \<le> 1" for w
    by (rule at_most_one [OF sd]) (use centerInside_both in blast)
  from one two show ?thesis by blast
qed

lemma sample_tickets: "ticketsFromComponents threeComponents = [\<lparr>rows = threeRows\<rparr>]"
  by code_simp

lemma sample_grid: "interpolateGrid threeRows = sampleGrid"
  by code_simp

lemma sample_ink:
  "hasInk ticketCanvas 2 2 3 3 = Inr True
   \<and> hasInk ticketCanvas 11 2 3 3 = Inr False
   \<and> hasInk ticketCanvas 20 2 3 3 = Inr False
   \<and> hasInk ticketCanvas 30 2 3 3 = Inr False
   \<and> hasInk ticketCanvas 39 2 3 3 = Inr False
   \<and> hasInk ticketCanvas 49 2 3 3 = Inr False
   \<and> hasInk ticketCanvas 2 12 3 3 = Inr True
   \<and> hasInk ticketCanvas 11 12 3 3 = Inr False
   \<and> hasInk ticketCanvas 20 12 3 3 = Inr False
   \<and> hasInk ticketCanvas 30 12 3 3 = Inr False
   \<and> hasInk ticketCanvas 39 12 3 3 = Inr False
   \<and> hasInk ticketCanvas 49 12 3 3 = Inr False
   \<and> hasInk ticketCanvas 2 22 3 3 = Inr True
   \<and> hasInk ticketCanvas 11 22 3 3 = Inr False
   \<and> hasInk ticketCanvas 20 22 3 3 = Inr False
   \<and> hasInk ticketCanvas 30 22 3 3 = Inr False
   \<and> hasInk ticketCanvas 39 22 3 3 = Inr False
   \<and> hasInk ticketCanvas 49 22 3 3 = Inr False"
  by code_simp

lemma sample_canvas_size: "cwidth ticketCanvas = 9" "cheight ticketCanvas = 29"
  by (simp_all add: ticketCanvas_def)

lemma upt3: "[0..<3] = [0, 1, 2]" and upt6: "[0..<6] = [0, 1, 2, 3, 4, 5]"
  by code_simp+

lemma floor_numeral_quotient:
  "\<lfloor>(numeral a :: rat) / numeral b\<rfloor> = (numeral a div numeral b :: int)"
  by (metis floor_divide_of_int_eq of_int_numeral)

lemma sample_map:
  "generateCompositeCanvas ticketCanvas (ticketsFromComponents threeComponents) = Inr sampleMap"
  by (simp add: sample_tickets generateCompositeCanvas_def ticketCells_def sample_grid
      sampleGrid_def sampleMap_def numberCell_def idCell_def Let_def sample_ink
      sample_canvas_size upt3 upt6 floor_numeral_quotient)

theorem number_sprites_are_disjoint_witness:
  "generateCompositeCanvas ticketCanvas (ticketsFromComponents threeComponents) = Inr sampleMap
   \<and> length (numberMappings sampleMap) = 3
   \<and> disjointRects (spriteRect (numberMappings sampleMap ! 0))
                    (spriteRect (numberMappings sampleMap ! 1))
   \<and> centerInside (spriteRect (numberMappings sampleMap ! 0)) (wordAt ''42'' 430 430 100 100 90)
   \<and> length (filter (\<lambda>m. centerInside (spriteRect m) (wordAt ''42'' 430 430 100 100 90))
                (numberMappings sampleMap)) \<le> 1"
proof -
  note t = number_sprites_are_disjoint [OF sample_map]
  have n: "length (numberMappings sampleMap) = 3" by code_simp
  have c: "centerInside (spriteRect (numberMappings sampleMap ! 0)) (wordAt ''42'' 430 430 100 100 90)"
    by code_simp
  from t n have d: "disjointRects (spriteRect (numberMappings sampleMap ! 0))
                    (spriteRect (numberMappings sampleMap ! 1))"
    by simp
  from t have "length (filter (\<lambda>m. centerInside (spriteRect m) (wordAt ''42'' 430 430 100 100 90))
                (numberMappings sampleMap)) \<le> 1"
    by blast
  with sample_map n d c show ?thesis by (intro conjI)
qed

section \<open>The values of a returned grid\<close>

lemma normalizeNumber_range: "normalizeNumber s = Some num \<Longrightarrow> 1 \<le> num \<and> num \<le> 99"
  by (auto simp: normalizeNumber_def Let_def split: option.splits if_splits)

lemma readNumber_range: "readNumber best cellH = Some num \<Longrightarrow> 1 \<le> num \<and> num \<le> 99"
  using normalizeNumber_range
  by (auto simp: readNumber_def Let_def split: if_splits)

lemma setCell_valid:
  assumes "validGrid g" "r < 3" "c < 6" "1 \<le> num" "num \<le> 99"
  shows "\<exists>g'. setCell g r c num = Inr g' \<and> validGrid g'"
proof -
  from assms have l: "r < length g" "c < length (g ! r)"
    by (auto simp: validGrid_def list_all_length)
  then have e: "setCell g r c num = Inr (g[r := (g ! r)[c := num]])"
    by (simp add: setCell_def Let_def)
  have "validGrid (g[r := (g ! r)[c := num]])"
    using assms l
    by (auto simp: validGrid_def list_all_length nth_list_update)
  with e show ?thesis by blast
qed

lemma processNumber_valid:
  assumes "validGrid g" "rowIndex item < 3" "colIndex item < 6"
  shows "\<exists>g'. processNumber ocrWords item g = Inr g' \<and> validGrid g'"
proof -
  define candidates where "candidates = filter (centerInside (spriteRect item)) ocrWords"
  define best where "best = hd (sort_key (\<lambda>w. - confidence w) candidates)"
  show ?thesis
  proof (cases "length candidates > 0")
    case False
    with assms(1) show ?thesis by (simp add: processNumber_def candidates_def)
  next
    case True
    show ?thesis
    proof (cases "readNumber best (rh (spriteRect item))")
      case None
      with True assms(1) show ?thesis
        by (simp add: processNumber_def candidates_def best_def Let_def)
    next
      case (Some num)
      from readNumber_range [OF Some] setCell_valid [OF assms, of num]
      obtain g' where "setCell g (rowIndex item) (colIndex item) num = Inr g'" "validGrid g'"
        by blast
      with True Some show ?thesis
        by (simp add: processNumber_def candidates_def best_def Let_def)
    qed
  qed
qed

lemma processNumbers_valid:
  assumes "validGrid g" "\<forall>item\<in>set items. rowIndex item < 3 \<and> colIndex item < 6"
  shows "\<exists>g'. processNumbers ocrWords items g = Inr g' \<and> validGrid g'"
  using assms
proof (induction items arbitrary: g)
  case Nil
  then show ?case by simp
next
  case (Cons item items)
  from processNumber_valid [of g item ocrWords] Cons.prems
  obtain g1 where g1: "processNumber ocrWords item g = Inr g1" "validGrid g1" by auto
  from Cons.IH [OF g1(2)] Cons.prems(2) g1(1) show ?case by simp
qed

lemma emptyGrid_valid: "validGrid (replicate 3 (replicate 6 0))"
  by (simp add: validGrid_def list_all_length)

lemma processTicket_valid:
  assumes "\<forall>m\<in>set (numberMappings cellMap). wellPlaced m"
  shows "\<exists>r. processTicket ocrWords cellMap random tIdx = Inr r \<and> validGrid (grid r)"
proof -
  let ?items = "filter (\<lambda>m. ticketIndex m = tIdx \<and> cellType m = Number) cellMap"
  have "\<forall>item\<in>set ?items. rowIndex item < 3 \<and> colIndex item < 6"
    using assms by (auto simp: numberMappings_def wellPlaced_def)
  from processNumbers_valid [OF emptyGrid_valid this, of ocrWords]
  obtain g where "processNumbers ocrWords ?items (replicate 3 (replicate 6 0)) = Inr g" "validGrid g"
    by blast
  then show ?thesis by (simp add: processTicket_def Let_def)
qed

lemma sequence_all:
  "sequence steps = Inr rs \<Longrightarrow> \<forall>s\<in>set steps. \<forall>r. s = Inr r \<longrightarrow> P r \<Longrightarrow> list_all P rs"
proof (induction steps arbitrary: rs)
  case Nil
  then show ?case by simp
next
  case (Cons step steps)
  from Cons.prems(1) obtain r rs' where s: "step = Inr r" "sequence steps = Inr rs'" "rs = r # rs'"
    by (auto split: sum.splits)
  from Cons.IH [OF s(2)] Cons.prems(2) have "list_all P rs'" by simp
  moreover from Cons.prems(2) s(1) have "P r" by simp
  ultimately show ?case by (simp add: s(3))
qed

text \<open>
  C5.  Whatever the image and whatever the recognizer returns: with the map of a composite
  sheet, the entry computed for a ticket has a grid of 3 rows of 6 cells whose values are
  0 or lie between 1 and 99, and no step of the computation raises; and every result that
  the full analysis returns has such a grid.
\<close>

theorem returned_grids_are_valid:
  "(generateCompositeCanvas binaryCtx tickets = Inr cellMap \<longrightarrow>
      (\<exists>r. processTicket ocrWords cellMap random tIdx = Inr r \<and> validGrid (grid r)))
   \<and> (analyzeTicketImage img ocr random = Inr results \<longrightarrow>
        list_all (\<lambda>r. validGrid (grid r)) results)"
proof (intro conjI impI)
  assume "generateCompositeCanvas binaryCtx tickets = Inr cellMap"
  from generateCompositeCanvas_numbers [OF this]
  show "\<exists>r. processTicket ocrWords cellMap random tIdx = Inr r \<and> validGrid (grid r)"
    by (intro processTicket_valid) simp
next
  assume a: "analyzeTicketImage img ocr random = Inr results"
  then obtain ctx width height binaryData cm ws where
    g: "generateCompositeCanvas ctx (detectTicketsInImage width height binaryData) = Inr cm"
    and s: "sequence (map (processTicket (map toDetectedWord ws) cm random)
                          [0..<length (detectTicketsInImage width height binaryData)]) = Inr results"
    by (auto simp: analyzeTicketImage_def Let_def split: sum.splits option.splits prod.splits)
  from generateCompositeCanvas_numbers [OF g]
  have w: "\<forall>m\<in>set (numberMappings cm). wellPlaced m" by simp
  show "list_all (\<lambda>r. validGrid (grid r)) results"
  proof (rule sequence_all [OF s], intro ballI allI impI)
    fix st r assume "st \<in> set (map (processTicket (map toDetectedWord ws) cm random)
                          [0..<length (detectTicketsInImage width height binaryData)])"
      and "st = Inr r"
    then obtain t where "processTicket (map toDetectedWord ws) cm random t = Inr r" by auto
    with processTicket_valid [OF w, of "map toDetectedWord ws" random t]
    show "validGrid (grid r)" by auto
  qed
qed

lemma white_image_analysis:
  "analyzeTicketImage whiteImage (Some []) random = Inr []"
proof -
  have c: "createBinaryCanvas whiteImage
     = Inr (\<lparr>cwidth = 2, cheight = 2, cpixels = [white, white, white, white]\<rparr>, 2, 2, [1, 1, 1, 1])"
    by code_simp
  have "[1, 1, 1, 1 :: nat] = replicate (2 * 2) 1" by (simp add: numeral_eq_Suc)
  with findWhiteComponents_all_paper [of 2 2] have "findWhiteComponents [1, 1, 1, 1] 2 2 = []"
    by simp
  then have "detectTicketsInImage 2 2 [1, 1, 1, 1] = []"
    by (simp add: detectTicketsInImage_def ticketsFromComponents_def validRows_def flushRows_def)
  with c show ?thesis
    by (simp add: analyzeTicketImage_def generateCompositeCanvas_def)
qed

theorem returned_grids_are_valid_witness:
  "generateCompositeCanvas ticketCanvas (ticketsFromComponents threeComponents) = Inr sampleMap
   \<and> processTicket sampleWords sampleMap (\<lambda>t. 7) 0
     = Inr \<lparr>ticketId = ''ID-7'',
            grid = [[42, 0, 0, 0, 0, 0], [0, 0, 0, 0, 0, 0], [7, 0, 0, 0, 0, 0]]\<rparr>
   \<and> validGrid [[42, 0, 0, 0, 0, 0], [0, 0, 0, 0, 0, 0], [7, 0, 0, 0, 0, 0]]
   \<and> analyzeTicketImage whiteImage (Some []) (\<lambda>t. 7) = Inr []
   \<and> list_all (\<lambda>r. validGrid (grid r)) []"
proof -
  note t = returned_grids_are_valid [where binaryCtx = ticketCanvas
      and tickets = "ticketsFromComponents threeComponents" and cellMap = sampleMap
      and ocrWords = sampleWords and random = "\<lambda>t. 7" and tIdx = 0 and img = whiteImage
      and ocr = "Some []" and results = "[]"]
  have e: "processTicket sampleWords sampleMap (\<lambda>t. 7) 0
     = Inr \<lparr>ticketId = ''ID-7'',
            grid = [[42, 0, 0, 0, 0, 0], [0, 0, 0, 0, 0, 0], [7, 0, 0, 0, 0, 0]]\<rparr>"
    by code_simp
  from t sample_map e
  have v: "validGrid [[42, 0, 0, 0, 0, 0], [0, 0, 0, 0, 0, 0], [7, 0, 0, 0, 0, 0]]" by auto
  from t white_image_analysis have l: "list_all (\<lambda>r. validGrid (grid r)) []" by simp
  from sample_map e v white_image_analysis l show ?thesis by (intro conjI)
qed

section \<open>The ticket identifier\<close>

lemma space_not_digit: "isSpace c \<Longrightarrow> \<not> isDigit c"
  by (auto simp: isSpace_def isDigit_def)

lemma slash_not_space: "\<not> isSpace (CHR ''/'')"
  by (simp add: isSpace_def)

lemma slash_not_digit: "\<not> isDigit (CHR ''/'')"
  by (simp add: isDigit_def)

lemma list_all_takeWhile: "list_all P (takeWhile P xs)"
  by (induction xs) auto

lemma matchRest_Some:
  assumes "matchRest s = Some right"
  shows "\<exists>s1 s2 post. s = s1 @ ''/'' @ s2 @ right @ post \<and> list_all isSpace s1 \<and> list_all isSpace s2
           \<and> right \<noteq> [] \<and> length right \<le> 5 \<and> list_all isDigit right"
proof -
  from assms obtain r where d: "dropWhile isSpace s = CHR ''/'' # r"
    and right: "right = take 5 (takeWhile isDigit (dropWhile isSpace r))" and ne: "right \<noteq> []"
    by (auto simp: matchRest_def Let_def split: list.splits if_splits)
  let ?s1 = "takeWhile isSpace s"
  let ?s2 = "takeWhile isSpace r"
  let ?d = "dropWhile isSpace r"
  let ?post = "drop 5 (takeWhile isDigit ?d) @ dropWhile isDigit ?d"
  have "s = ?s1 @ dropWhile isSpace s" by simp
  also have "dropWhile isSpace s = ''/'' @ r" using d by simp
  also have "r = ?s2 @ ?d" by simp
  also have "?d = takeWhile isDigit ?d @ dropWhile isDigit ?d" by simp
  also have "takeWhile isDigit ?d = right @ drop 5 (takeWhile isDigit ?d)"
    by (simp add: right)
  finally have "s = ?s1 @ ''/'' @ ?s2 @ right @ ?post" by simp
  moreover have "list_all isDigit right"
    unfolding right using list_all_takeWhile [of isDigit ?d]
    by (auto simp: list_all_iff dest: in_set_takeD)
  moreover have "length right \<le> 5" by (simp add: right)
  ultimately show ?thesis using ne list_all_takeWhile [of isSpace] by blast
qed

lemma matchWith_Some:
  assumes "matchWith s k = Some (l, r)" "1 \<le> k" "k \<le> 5"
  shows "\<exists>s1 s2 post. s = l @ s1 @ ''/'' @ s2 @ r @ post
           \<and> l \<noteq> [] \<and> length l \<le> 5 \<and> list_all isDigit l
           \<and> list_all isSpace s1 \<and> list_all isSpace s2
           \<and> r \<noteq> [] \<and> length r \<le> 5 \<and> list_all isDigit r"
proof -
  from assms(1) have k: "k \<le> length (takeWhile isDigit s)" and l: "l = take k s"
    and m: "matchRest (drop k s) = Some r"
    by (auto simp: matchWith_def split: if_splits option.splits)
  from matchRest_Some [OF m] obtain s1 s2 post where
    d: "drop k s = s1 @ ''/'' @ s2 @ r @ post" and p: "list_all isSpace s1" "list_all isSpace s2"
    "r \<noteq> []" "length r \<le> 5" "list_all isDigit r" by blast
  have "s = take k s @ drop k s" by simp
  with d l have s: "s = l @ s1 @ ''/'' @ s2 @ r @ post" by simp
  have "l = take k (takeWhile isDigit s)"
    using k by (metis l append_eq_conv_conj append_take_drop_id takeWhile_dropWhile_id take_all_iff take_append length_take min.absorb2 diff_is_0_eq' take_0 append_Nil2)
  then have "list_all isDigit l"
    using list_all_takeWhile [of isDigit s] by (auto simp: list_all_iff dest: in_set_takeD)
  moreover have "length l = k" using k l length_takeWhile_le [of isDigit s] by simp
  ultimately show ?thesis using s p assms(2,3) by (intro exI [of _ s1] exI [of _ s2] exI [of _ post]) auto
qed


lemma matchHere_Some:
  assumes "matchHere s = Some (l, r)"
  shows "\<exists>s1 s2 post. s = l @ s1 @ ''/'' @ s2 @ r @ post
           \<and> l \<noteq> [] \<and> length l \<le> 5 \<and> list_all isDigit l
           \<and> list_all isSpace s1 \<and> list_all isSpace s2
           \<and> r \<noteq> [] \<and> length r \<le> 5 \<and> list_all isDigit r"
proof -
  from assms obtain k where k: "List.find (\<lambda>k. matchWith s k \<noteq> None) [5, 4, 3, 2, 1] = Some k"
    and m: "matchWith s k = Some (l, r)"
    by (auto simp: matchHere_def split: option.splits)
  from k have "k \<in> set [5, 4, 3, 2, 1]" unfolding find_Some_iff by (metis nth_mem)
  then have "1 \<le> k" "k \<le> 5" by auto
  from matchWith_Some [OF m this] show ?thesis .
qed

lemma slashMatch_Some:
  "slashMatch s = Some (l, r) \<Longrightarrow> slashPattern s l r"
proof (induction s)
  case Nil
  then show ?case by simp
next
  case (Cons c cs)
  show ?case
  proof (cases "matchHere (c # cs)")
    case None
    with Cons.prems have "slashMatch cs = Some (l, r)" by simp
    from Cons.IH [OF this] obtain pre s1 s2 post where
      "cs = pre @ l @ s1 @ ''/'' @ s2 @ r @ post" "l \<noteq> []" "length l \<le> 5" "list_all isDigit l"
      "list_all isSpace s1" "list_all isSpace s2" "r \<noteq> []" "length r \<le> 5" "list_all isDigit r"
      unfolding slashPattern_def by blast
    then show ?thesis unfolding slashPattern_def
      by (intro exI [of _ "c # pre"] exI [of _ s1] exI [of _ s2] exI [of _ post]) simp
  next
    case (Some m)
    with Cons.prems have "matchHere (c # cs) = Some (l, r)" by simp
    from matchHere_Some [OF this] show ?thesis unfolding slashPattern_def
      by (metis append_Nil)
  qed
qed

lemma dropWhile_spaces: "list_all isSpace s1 \<Longrightarrow> \<not> isSpace c \<Longrightarrow> dropWhile isSpace (s1 @ c # rest) = c # rest"
  by (induction s1) auto

lemma takeWhile_digits: "list_all isDigit l \<Longrightarrow> \<not> isDigit c \<Longrightarrow> takeWhile isDigit (l @ c # rest) = l"
  by (induction l) auto

lemma matchHere_complete:
  assumes "l \<noteq> []" "length l \<le> 5" "list_all isDigit l" "list_all isSpace s1" "list_all isSpace s2"
    "r \<noteq> []" "list_all isDigit r"
  shows "matchHere (l @ s1 @ ''/'' @ s2 @ r @ post) \<noteq> None"
proof -
  let ?s = "l @ s1 @ ''/'' @ s2 @ r @ post"
  obtain d r' where r: "r = d # r'" "isDigit d" using assms(6,7) by (cases r) auto
  have tw: "takeWhile isDigit ?s = l"
  proof (cases s1)
    case Nil
    then show ?thesis using takeWhile_digits [OF assms(3) slash_not_digit] by simp
  next
    case (Cons a s1')
    with assms(4) have "\<not> isDigit a" by (simp add: space_not_digit)
    with takeWhile_digits [OF assms(3) this] Cons show ?thesis by simp
  qed
  have "dropWhile isSpace (s1 @ ''/'' @ s2 @ r @ post) = ''/'' @ s2 @ r @ post"
    using dropWhile_spaces [OF assms(4) slash_not_space] by simp
  moreover have "dropWhile isSpace (s2 @ r @ post) = r @ post"
    using dropWhile_spaces [OF assms(5), of d "r' @ post"] r space_not_digit by auto
  ultimately have "matchRest (s1 @ ''/'' @ s2 @ r @ post) \<noteq> None"
    using r by (simp add: matchRest_def Let_def)
  then have "matchWith ?s (length l) \<noteq> None"
    using tw by (auto simp: matchWith_def)
  moreover have "length l \<in> set [5, 4, 3, 2, 1]"
  proof -
    from assms(1,2) have "1 \<le> length l \<and> length l \<le> 5" by (cases l) auto
    then have "length l = 5 \<or> length l = 4 \<or> length l = 3 \<or> length l = 2 \<or> length l = 1"
      by linarith
    then show ?thesis by auto
  qed
  ultimately have ex: "\<exists>k. k \<in> set [5, 4, 3, 2, 1] \<and> matchWith ?s k \<noteq> None"
    by blast
  have "List.find (\<lambda>k. matchWith ?s k \<noteq> None) [5, 4, 3, 2, 1] \<noteq> None"
    unfolding find_None_iff using ex by blast
  then obtain k where k: "List.find (\<lambda>k. matchWith ?s k \<noteq> None) [5, 4, 3, 2, 1] = Some k" by auto
  then have "matchWith ?s k \<noteq> None" unfolding find_Some_iff by blast
  with k show ?thesis by (simp add: matchHere_def)
qed

lemma slashMatch_complete:
  "slashPattern s l r \<Longrightarrow> slashMatch s \<noteq> None"
proof -
  assume "slashPattern s l r"
  then obtain pre s1 s2 post where s: "s = pre @ l @ s1 @ ''/'' @ s2 @ r @ post"
    and p: "l \<noteq> []" "length l \<le> 5" "list_all isDigit l" "list_all isSpace s1" "list_all isSpace s2"
    "r \<noteq> []" "list_all isDigit r"
    unfolding slashPattern_def by blast
  have "slashMatch (pre @ l @ s1 @ ''/'' @ s2 @ r @ post) \<noteq> None"
  proof (induction pre)
    case Nil
    obtain c cs where l: "l = c # cs" using p(1) by (cases l) auto
    from matchHere_complete [OF p, of post] show ?case
      by (auto simp: l split: option.splits)
  next
    case (Cons a pre)
    then show ?case by (auto split: option.splits)
  qed
  then show ?thesis by (simp add: s)
qed

lemma splitSpaces_parts:
  "p \<in> set (splitSpaces s) \<Longrightarrow> p \<noteq> [] \<and> set p \<subseteq> {c \<in> set s. \<not> isSpace c}"
proof (induction s arbitrary: p rule: splitSpaces.induct)
  case 1
  then show ?case by simp
next
  case (2 c cs)
  show ?case
  proof (cases "isSpace c")
    case True
    with 2 show ?thesis by auto
  next
    case False
    with "2.prems" consider "p = c # takeWhile (\<lambda>d. \<not> isSpace d) cs"
      | "p \<in> set (splitSpaces (dropWhile (\<lambda>d. \<not> isSpace d) cs))" by auto
    then show ?thesis
    proof cases
      case 1
      then show ?thesis using False by (auto dest: set_takeWhileD)
    next
      case 2
      from "2.IH"(2) [OF False this] show ?thesis by (auto dest: set_dropWhileD)
    qed
  qed
qed

lemma set_trim: "set (trim s) \<subseteq> set s"
  by (auto simp: trim_def dest!: set_dropWhileD)

lemma loose_parts_numeric:
  "list_all (\<lambda>p. p \<noteq> [] \<and> list_all isDigit p)
     (splitSpaces (trim (map (\<lambda>c. if isDigit c \<or> isSpace c then c else CHR '' '') s)))"
proof -
  let ?loose = "trim (map (\<lambda>c. if isDigit c \<or> isSpace c then c else CHR '' '') s)"
  have ds: "isDigit c \<or> isSpace c" if "c \<in> set ?loose" for c
  proof -
    from that set_trim have "c \<in> set (map (\<lambda>c. if isDigit c \<or> isSpace c then c else CHR '' '') s)"
      by blast
    then show ?thesis by (auto simp: isSpace_def split: if_splits)
  qed
  have "p \<noteq> [] \<and> list_all isDigit p" if "p \<in> set (splitSpaces ?loose)" for p
    using splitSpaces_parts [OF that] ds by (auto simp: list_all_iff)
  then show ?thesis by (simp add: list_all_iff)
qed

text \<open>
  C6, as the code has it.  For a ticket with an identifier mapping and at least one
  recognized word centred in its sprite, let \<open>processed\<close> be the joined text after the runs
  of two or more letters are removed and the characters \<^verbatim>\<open>| \ I : .\<close> are turned into
  slashes.  If the match of the pattern finds \<open>l\<close> and \<open>r\<close>, these are 1 to 5 digits each,
  they stand in \<open>processed\<close> around a slash with only blanks in between, and the
  identifier is exactly \<open>l/r\<close>; the match finds something whenever \<open>processed\<close> holds the
  pattern.  Otherwise every character that is neither a digit nor a blank is replaced by
  a blank, the text is split at the blanks into non-empty tokens of digits, and with at
  least two tokens the identifier is the last but one, a slash and the last; with fewer
  the identifier stays as it is.
\<close>

theorem identifier_reconstruction:
  assumes "List.find (\<lambda>m. ticketIndex m = tIdx \<and> cellType m = Id) cellMap = Some idMapItem"
    and "idWords = filter (centerInside (spriteRect idMapItem)) ocrWords"
    and "idWords \<noteq> []"
    and "processed = normalizeSlashes (stripLetterRuns (joinSpace (map word_text idWords)))"
    and "parts = splitSpaces (trim (map (\<lambda>c. if isDigit c \<or> isSpace c then c else CHR '' '')
                                        processed))"
  shows "(\<forall>l r. slashMatch processed = Some (l, r) \<longrightarrow>
            slashPattern processed l r
            \<and> processId ocrWords cellMap tIdx current = l @ ''/'' @ r)
         \<and> ((\<exists>l r. slashPattern processed l r) \<longrightarrow> slashMatch processed \<noteq> None)
         \<and> (slashMatch processed = None \<longrightarrow>
              list_all (\<lambda>p. p \<noteq> [] \<and> list_all isDigit p) parts
              \<and> processId ocrWords cellMap tIdx current
                = (if length parts \<ge> 2
                   then parts ! (length parts - 2) @ ''/'' @ last parts
                   else current))"
proof (intro conjI allI impI)
  fix l r assume m: "slashMatch processed = Some (l, r)"
  from slashMatch_Some [OF m] show "slashPattern processed l r" .
  from m assms show "processId ocrWords cellMap tIdx current = l @ ''/'' @ r"
    by (simp add: processId_def reconstructId_def Let_def)
next
  assume "\<exists>l r. slashPattern processed l r"
  then show "slashMatch processed \<noteq> None" using slashMatch_complete by blast
next
  assume "slashMatch processed = None"
  show "list_all (\<lambda>p. p \<noteq> [] \<and> list_all isDigit p) parts"
    unfolding assms(5) by (rule loose_parts_numeric)
next
  assume n: "slashMatch processed = None"
  have "parts \<noteq> [] \<Longrightarrow> parts ! (length parts - 1) = last parts"
    by (simp add: last_conv_nth)
  moreover have "2 \<le> length parts \<Longrightarrow> parts \<noteq> []" by auto
  ultimately show "processId ocrWords cellMap tIdx current
        = (if length parts \<ge> 2 then parts ! (length parts - 2) @ ''/'' @ last parts else current)"
    using n assms
    by (simp add: processId_def reconstructId_def Let_def)
qed

text \<open>
  The two texts of the specification: the words \<^verbatim>\<open>SCHEIN 160 / 400\<close> give the identifier
  \<^verbatim>\<open>160/400\<close> through the pattern, the words \<^verbatim>\<open>160 400\<close> give it through the last two
  tokens.
\<close>

theorem identifier_reconstruction_witness:
  "List.find (\<lambda>m. ticketIndex m = 0 \<and> cellType m = Id) [idMapping] = Some idMapping
   \<and> scheinWords = filter (centerInside (spriteRect idMapping)) scheinWords
   \<and> scheinWords \<noteq> []
   \<and> joinSpace (map word_text scheinWords) = ''SCHEIN 160 / 400''
   \<and> slashMatch '' 160 / 400'' = Some (''160'', ''400'')
   \<and> processId scheinWords [idMapping] 0 ''ID-7'' = ''160/400''
   \<and> plainWords = filter (centerInside (spriteRect idMapping)) plainWords
   \<and> plainWords \<noteq> []
   \<and> joinSpace (map word_text plainWords) = ''160 400''
   \<and> slashMatch ''160 400'' = None
   \<and> processId plainWords [idMapping] 0 ''ID-7'' = ''160/400''"
proof -
  have f: "List.find (\<lambda>m. ticketIndex m = 0 \<and> cellType m = Id) [idMapping] = Some idMapping"
    by code_simp
  have w1: "scheinWords = filter (centerInside (spriteRect idMapping)) scheinWords" by code_simp
  have n1: "scheinWords \<noteq> []" by (simp add: scheinWords_def)
  have j1: "joinSpace (map word_text scheinWords) = ''SCHEIN 160 / 400''" by code_simp
  have p1: "'' 160 / 400'' = normalizeSlashes (stripLetterRuns (joinSpace (map word_text scheinWords)))"
    by code_simp
  have m1: "slashMatch '' 160 / 400'' = Some (''160'', ''400'')" by code_simp
  have s1: "[''160'', ''400'']
            = splitSpaces (trim (map (\<lambda>c. if isDigit c \<or> isSpace c then c else CHR '' '')
                                     '' 160 / 400''))" by code_simp
  from identifier_reconstruction [OF f w1 n1 p1 s1, of "''ID-7''"] m1
  have r1: "processId scheinWords [idMapping] 0 ''ID-7'' = ''160/400''" by simp
  have w2: "plainWords = filter (centerInside (spriteRect idMapping)) plainWords" by code_simp
  have n2: "plainWords \<noteq> []" by (simp add: plainWords_def)
  have j2: "joinSpace (map word_text plainWords) = ''160 400''" by code_simp
  have p2: "''160 400'' = normalizeSlashes (stripLetterRuns (joinSpace (map word_text plainWords)))"
    by code_simp
  have m2: "slashMatch ''160 400'' = None" by code_simp
  have s2: "[''160'', ''400'']
            = splitSpaces (trim (map (\<lambda>c. if isDigit c \<or> isSpace c then c else CHR '' '')
                                     ''160 400''))" by code_simp
  from identifier_reconstruction [OF f w2 n2 p2 s2, of "''ID-7''"] m2
  have r2: "processId plainWords [idMapping] 0 ''ID-7'' = ''160/400''"
    by simp
  from f w1 n1 j1 m1 r1 w2 n2 j2 m2 r2 show ?thesis by (intro conjI)
qed

text \<open>
  C6, as the specification states it, fails in the fallback: the code does not strip the
  characters that are neither digits nor blanks, it puts a blank in their place, so they
  separate tokens.  For the single word \<^verbatim>\<open>160-400\<close> the pattern does not match; with the
  hyphen stripped one token \<^verbatim>\<open>160400\<close> would remain and the identifier would stay as it
  is, but the code finds the tokens \<^verbatim>\<open>160\<close> and \<^verbatim>\<open>400\<close> and sets the identifier
  \<^verbatim>\<open>160/400\<close>.
\<close>

theorem identifier_fallback_separates_at_other_characters:
  "List.find (\<lambda>m. ticketIndex m = 0 \<and> cellType m = Id) [idMapping] = Some idMapping
   \<and> filter (centerInside (spriteRect idMapping)) hyphenWords = hyphenWords
   \<and> joinSpace (map word_text hyphenWords) = ''160-400''
   \<and> normalizeSlashes (stripLetterRuns ''160-400'') = ''160-400''
   \<and> slashMatch ''160-400'' = None
   \<and> statedLooseText ''160-400'' = ''160400''
   \<and> statedFallback ''160-400'' = None
   \<and> reconstructId ''160-400'' = Some ''160/400''
   \<and> processId hyphenWords [idMapping] 0 ''ID-7'' = ''160/400''"
  by code_simp

section \<open>Reading numbers: the lower-case l\<close>

text \<open>
  C1.  A word with the text \<^verbatim>\<open>l6\<close>, centred in the sprite of a number cell and 100 of
  its 160 pixels tall, passes the height and the stray-text checks.  The text is put into
  upper case before the substitutions run, so the substitution of the lower-case letter l
  never applies: the letter L is removed as a non-digit and the cell is set to 6, not to
  16.  In the same way \<^verbatim>\<open>l60\<close> sets the cell to 60 and is not rejected.
\<close>

theorem lowercase_l_is_dropped:
  "processNumber [wordAt ''l6'' 430 430 100 100 90] firstSprite emptyGrid
     = Inr [[6, 0, 0, 0, 0, 0], [0, 0, 0, 0, 0, 0], [0, 0, 0, 0, 0, 0]]
   \<and> processNumber [wordAt ''l60'' 430 430 100 100 90] firstSprite emptyGrid
     = Inr [[60, 0, 0, 0, 0, 0], [0, 0, 0, 0, 0, 0], [0, 0, 0, 0, 0, 0]]"
  by code_simp

end
